theory Spec2Isabelle
  imports Main "HOL-Library.Sublist" "HOL-Library.List_Lexorder"
begin

section \<open>Go values, types and the store\<close>

text \<open>
  The package \<^verbatim>\<open>message\<close> wraps a Go struct behind the \<^verbatim>\<open>Record\<close> interface and
  reads it through the standard package \<^verbatim>\<open>reflect\<close>. The model has three layers:
  the values and type descriptors of Go, the functions of \<^verbatim>\<open>reflect\<close> and
  \<^verbatim>\<open>strings\<close> that \<^verbatim>\<open>struct_record.go\<close> calls, and the functions of
  \<^verbatim>\<open>struct_record.go\<close> themselves.

  A type descriptor is a finite tree, so a recursive type (a struct with a field whose
  type points back to the struct) is outside the model; a struct type is its list of
  field declarations, in declaration order. Of the kinds of Go the model has three that
  are neither pointer nor struct. The tag of a field is kept in parsed form: the
  key/value pairs of the conventional tag string, in the order in which the string lists
  them.
\<close>

datatype kind = KInvalid | KBool | KInt | KString | KPointer | KStruct

datatype gtype = TBool | TInt | TString | TPtr gtype | TStruct "fdecl list"
  and fdecl = FDecl (dName: string) (dPkgPath: string) (dType: gtype)
                (dTag: "(string \<times> string) list") (dEmbedded: bool)

text \<open>
  A pointer value is an address or nil; the store maps an address to the value kept
  there. A struct value holds its fields by value, as Go does, so that boxing a struct
  in an \<^verbatim>\<open>interface{}\<close> copies it.
\<close>

datatype val = BoolV bool | IntV int | StringV string | PtrV "nat option" | StructV "val list"

type_synonym store = "nat \<rightharpoonup> val"

text \<open>An \<^verbatim>\<open>interface{}\<close> is nil or a dynamic type with a value of that type.\<close>

datatype iface = Nil | Iface gtype val

text \<open>
  What can go wrong at run time. \<open>BadMemory\<close> is not a panic of Go: it is what the
  model answers when a value does not have the shape of its type, which Go's type system
  excludes.
\<close>

datatype panic =
    NilTypeMethod
  | ElemOfNonPointer
  | VisibleFieldsOfNonStruct
  | ValueKindMismatch
  | FieldIndexOutOfRange
  | NilEmbeddedPointer
  | InterfaceOfZeroValue
  | InterfaceOfUnexported
  | BadMemory

section \<open>The functions of reflect and strings that the package calls\<close>

subsection \<open>Type descriptors\<close>

fun Type_Kind :: "gtype \<Rightarrow> kind" where
  "Type_Kind TBool = KBool"
| "Type_Kind TInt = KInt"
| "Type_Kind TString = KString"
| "Type_Kind (TPtr t) = KPointer"
| "Type_Kind (TStruct fs) = KStruct"

text \<open>\<^verbatim>\<open>Type.Elem\<close> of a pointer type; on a type of another kind of the model it panics.\<close>

fun Type_Elem :: "gtype \<Rightarrow> panic + gtype" where
  "Type_Elem (TPtr t) = Inr t"
| "Type_Elem _ = Inl ElemOfNonPointer"

text \<open>\<^verbatim>\<open>reflect.TypeOf\<close>: the dynamic type, and the nil \<^verbatim>\<open>Type\<close> for the nil interface.\<close>

fun TypeOf :: "iface \<Rightarrow> gtype option" where
  "TypeOf Nil = None"
| "TypeOf (Iface t x) = Some t"

record StructField =
  Name :: string
  PkgPath :: string
  Typ :: gtype
  Tag :: "(string \<times> string) list"
  Index :: "nat list"
  Anonymous :: bool

text \<open>\<^verbatim>\<open>StructField.IsExported\<close> is \<^verbatim>\<open>f.PkgPath == ""\<close>.\<close>

definition IsExported :: "StructField \<Rightarrow> bool" where
  "IsExported f = (PkgPath f = [])"

text \<open>\<^verbatim>\<open>t.Field(i)\<close> for the \<open>i\<close>-th declaration \<open>d\<close> of a struct type.\<close>

definition Type_Field :: "fdecl \<Rightarrow> nat \<Rightarrow> StructField" where
  "Type_Field d i =
     \<lparr>Name = dName d, PkgPath = dPkgPath d, Typ = dType d, Tag = dTag d,
      Index = [i], Anonymous = dEmbedded d\<rparr>"

text \<open>\<^verbatim>\<open>StructTag.Get\<close>: the value of the first pair with the key, or the empty string.\<close>

definition StructTag_Get :: "(string \<times> string) list \<Rightarrow> string \<Rightarrow> string" where
  "StructTag_Get tg key = (case map_of tg key of Some v \<Rightarrow> v | None \<Rightarrow> [])"

subsection \<open>VisibleFields\<close>

text \<open>
  \<^verbatim>\<open>visibleFieldsWalker\<close>: \<open>byName\<close> maps a field name to its position in \<open>wfields\<close>.
  The walker's \<^verbatim>\<open>index\<close> and \<^verbatim>\<open>visiting\<close> are pushed before and popped after each step,
  so the model passes them down as arguments.
\<close>

record walker =
  byName :: "string \<rightharpoonup> nat"
  wfields :: "StructField list"

text \<open>
  The body of the loop of \<^verbatim>\<open>walk\<close> up to the test of \<^verbatim>\<open>f.Anonymous\<close>: a field met
  before under the same name cancels the new one at equal depth, loses to it when it is
  deeper, and wins when it is shallower. A cancelled or losing entry has its name
  cleared.
\<close>

definition clear_name :: "nat \<Rightarrow> walker \<Rightarrow> walker" where
  "clear_name oldIndex w =
     w\<lparr>wfields := (wfields w)[oldIndex := (wfields w ! oldIndex)\<lparr>Name := []\<rparr>]\<rparr>"

definition walk_visit :: "nat list \<Rightarrow> StructField \<Rightarrow> walker \<Rightarrow> walker" where
  "walk_visit idx f w =
     (let (add, w1) =
        (case byName w (Name f) of
           Some oldIndex \<Rightarrow>
             if length idx = length (Index (wfields w ! oldIndex)) then (False, clear_name oldIndex w)
             else if length idx < length (Index (wfields w ! oldIndex)) then (True, clear_name oldIndex w)
             else (False, w)
         | None \<Rightarrow> (True, w))
      in if add
         then w1\<lparr>byName := (byName w1)(Name f \<mapsto> length (wfields w1)),
                 wfields := wfields w1 @ [f\<lparr>Index := idx\<rparr>]\<rparr>
         else w1)"

text \<open>
  \<^verbatim>\<open>walk\<close> on the struct type with the fields \<open>fs\<close>; \<open>walk_fields\<close> is its loop, at
  the field number \<open>i\<close>. For an embedded field the source tests
  \<^verbatim>\<open>f.Type.Kind() == Pointer\<close>, takes \<^verbatim>\<open>f.Type.Elem()\<close> then, and walks the type when
  its kind is \<^verbatim>\<open>Struct\<close>: the patterns of the \<open>case\<close>. \<^verbatim>\<open>VisibleFields\<close> then drops the
  entries whose name was cleared.
\<close>

fun walk :: "gtype list \<Rightarrow> nat list \<Rightarrow> fdecl list \<Rightarrow> walker \<Rightarrow> walker"
  and walk_fields :: "gtype list \<Rightarrow> nat list \<Rightarrow> nat \<Rightarrow> fdecl list \<Rightarrow> walker \<Rightarrow> walker"
where
  "walk visiting index fs w =
     (if TStruct fs \<in> set visiting then w
      else walk_fields (TStruct fs # visiting) index 0 fs w)"
| "walk_fields visiting index i [] w = w"
| "walk_fields visiting index i (FDecl n p t tg a # ds) w =
     (let idx = index @ [i];
          w2 = walk_visit idx (Type_Field (FDecl n p t tg a) i) w;
          w3 = (if a
                then (case t of
                        TPtr (TStruct gs) \<Rightarrow> walk visiting idx gs w2
                      | TStruct gs \<Rightarrow> walk visiting idx gs w2
                      | _ \<Rightarrow> w2)
                else w2)
      in walk_fields visiting index (Suc i) ds w3)"

definition VisibleFields :: "gtype \<Rightarrow> panic + StructField list" where
  "VisibleFields t =
     (case t of
        TStruct fs \<Rightarrow>
          Inr (filter (\<lambda>f. Name f \<noteq> [])
                 (wfields (walk [] [] fs \<lparr>byName = Map.empty, wfields = []\<rparr>)))
      | _ \<Rightarrow> Inl VisibleFieldsOfNonStruct)"

subsection \<open>Values\<close>

text \<open>
  A \<^verbatim>\<open>reflect.Value\<close> is the zero Value or a value with its type and the two read-only
  flags: \<^verbatim>\<open>flagStickyRO\<close> (reached through an unexported field that is not embedded) and
  \<^verbatim>\<open>flagEmbedRO\<close> (reached through an unexported embedded field).
\<close>

datatype Value = ZeroValue | Val (vType: gtype) (vData: val) (stickyRO: bool) (embedRO: bool)

fun ValueOf :: "iface \<Rightarrow> Value" where
  "ValueOf Nil = ZeroValue"
| "ValueOf (Iface t x) = Val t x False False"

fun Value_Kind :: "Value \<Rightarrow> kind" where
  "Value_Kind ZeroValue = KInvalid"
| "Value_Kind (Val t x s e) = Type_Kind t"

text \<open>
  \<^verbatim>\<open>Value.Elem\<close> of a pointer: the zero Value for nil, the pointee otherwise; both
  read-only flags are kept. On another kind it panics.
\<close>

fun Value_Elem :: "store \<Rightarrow> Value \<Rightarrow> panic + Value" where
  "Value_Elem st (Val (TPtr t) (PtrV None) s e) = Inr ZeroValue"
| "Value_Elem st (Val (TPtr t) (PtrV (Some a)) s e) =
     (case st a of Some x \<Rightarrow> Inr (Val t x s e) | None \<Rightarrow> Inl BadMemory)"
| "Value_Elem st (Val (TPtr t) _ s e) = Inl BadMemory"
| "Value_Elem st _ = Inl ValueKindMismatch"

text \<open>\<^verbatim>\<open>reflect.Indirect\<close>: \<^verbatim>\<open>if v.Kind() != Pointer { return v }; return v.Elem()\<close>.\<close>

definition Indirect :: "store \<Rightarrow> Value \<Rightarrow> panic + Value" where
  "Indirect st v = (if Value_Kind v \<noteq> KPointer then Inr v else Value_Elem st v)"

text \<open>
  \<^verbatim>\<open>Value.Field\<close>: the receiver must be a struct and the index in range. The result
  inherits \<^verbatim>\<open>flagStickyRO\<close> only; an unexported field sets \<^verbatim>\<open>flagEmbedRO\<close> when it is
  embedded and \<^verbatim>\<open>flagStickyRO\<close> otherwise.
\<close>

fun Value_Field :: "Value \<Rightarrow> nat \<Rightarrow> panic + Value" where
  "Value_Field (Val (TStruct fs) x s e) i =
     (if i \<ge> length fs then Inl FieldIndexOutOfRange
      else (case x of
              StructV vs \<Rightarrow>
                if i < length vs
                then Inr (Val (dType (fs ! i)) (vs ! i)
                            (s \<or> (dPkgPath (fs ! i) \<noteq> [] \<and> \<not> dEmbedded (fs ! i)))
                            (dPkgPath (fs ! i) \<noteq> [] \<and> dEmbedded (fs ! i)))
                else Inl BadMemory
            | _ \<Rightarrow> Inl BadMemory))"
| "Value_Field _ i = Inl ValueKindMismatch"

text \<open>
  The loop of \<^verbatim>\<open>Value.FieldByIndex\<close>: from the second index on, a pointer to a struct
  is followed first, and a nil one panics.
\<close>

definition embedded_step :: "store \<Rightarrow> Value \<Rightarrow> panic + Value" where
  "embedded_step st v =
     (case v of
        Val (TPtr (TStruct gs)) x s e \<Rightarrow>
          (if x = PtrV None then Inl NilEmbeddedPointer else Value_Elem st v)
      | _ \<Rightarrow> Inr v)"

fun FieldByIndex_loop :: "store \<Rightarrow> Value \<Rightarrow> bool \<Rightarrow> nat list \<Rightarrow> panic + Value" where
  "FieldByIndex_loop st v first [] = Inr v"
| "FieldByIndex_loop st v first (x # xs) =
     (case (if first then Inr v else embedded_step st v) of
        Inl e \<Rightarrow> Inl e
      | Inr v1 \<Rightarrow>
          (case Value_Field v1 x of
             Inl e \<Rightarrow> Inl e
           | Inr v2 \<Rightarrow> FieldByIndex_loop st v2 False xs))"

definition Value_FieldByIndex :: "store \<Rightarrow> Value \<Rightarrow> nat list \<Rightarrow> panic + Value" where
  "Value_FieldByIndex st v index =
     (if length index = 1 then Value_Field v (hd index)
      else if Value_Kind v \<noteq> KStruct then Inl ValueKindMismatch
      else FieldByIndex_loop st v True index)"

text \<open>
  \<^verbatim>\<open>Type.FieldByName\<close> is modelled by the contract that the documentation of
  \<^verbatim>\<open>VisibleFields\<close> states and that the tests of \<^verbatim>\<open>reflect\<close> check:
  a field is visible exactly when \<^verbatim>\<open>FieldByName\<close> finds it, under the same index.
\<close>

definition Type_FieldByName :: "gtype \<Rightarrow> string \<Rightarrow> StructField option" where
  "Type_FieldByName t name =
     (case VisibleFields t of
        Inr vf \<Rightarrow> find (\<lambda>f. Name f = name) vf
      | Inl e \<Rightarrow> None)"

text \<open>\<^verbatim>\<open>Value.FieldByName\<close>: the field when the type has it, the zero Value otherwise.\<close>

definition Value_FieldByName :: "store \<Rightarrow> Value \<Rightarrow> string \<Rightarrow> panic + Value" where
  "Value_FieldByName st v name =
     (if Value_Kind v \<noteq> KStruct then Inl ValueKindMismatch
      else (case Type_FieldByName (vType v) name of
              Some f \<Rightarrow> Value_FieldByIndex st v (Index f)
            | None \<Rightarrow> Inr ZeroValue))"

text \<open>
  \<^verbatim>\<open>Value.Interface\<close> panics on the zero Value and on a value obtained through an
  unexported field.
\<close>

fun Value_Interface :: "Value \<Rightarrow> panic + iface" where
  "Value_Interface ZeroValue = Inl InterfaceOfZeroValue"
| "Value_Interface (Val t x s e) = (if s \<or> e then Inl InterfaceOfUnexported else Inr (Iface t x))"

subsection \<open>strings.Split\<close>

text \<open>
  \<^verbatim>\<open>strings.Split(s, sep)\<close> for a separator of one byte: the pieces of \<open>s\<close> between
  the separators, one more than there are separators.
\<close>

fun strings_Split :: "string \<Rightarrow> char \<Rightarrow> string list" where
  "strings_Split [] sep = [[]]"
| "strings_Split (c # cs) sep =
     (if c = sep then [] # strings_Split cs sep
      else (c # hd (strings_Split cs sep)) # tl (strings_Split cs sep))"

section \<open>The package: struct\_record.go\<close>

record StructRecord =
  tagName :: string
  record_of :: iface
  tags :: "string list"
  tagsToName :: "string \<rightharpoonup> string"

datatype error = ErrNotAStruct

text \<open>The zero \<^verbatim>\<open>StructRecord{}\<close>, returned beside \<^verbatim>\<open>ErrNotAStruct\<close>.\<close>

definition zero_StructRecord :: StructRecord where
  "zero_StructRecord = \<lparr>tagName = [], record_of = Nil, tags = [], tagsToName = Map.empty\<rparr>"

text \<open>
  \<^verbatim>\<open>extract\<close> returns the keys of one field and writes to the map it is given; the
  model returns the map beside the keys. The element \<^verbatim>\<open>[0]\<close> of the split always
  exists (lemma \<open>strings_Split_not_Nil\<close>).
\<close>

definition extract_key ::
  "StructField \<Rightarrow> string \<Rightarrow> (string \<rightharpoonup> string) \<Rightarrow> string list \<times> (string \<rightharpoonup> string)" where
  "extract_key f tag m =
     (let tagVal = (if tag \<noteq> [] then hd (strings_Split (StructTag_Get (Tag f) tag) CHR '','')
                    else Name f)
      in if tag \<noteq> [] \<and> (tagVal = [] \<or> tagVal = ''-'') then ([], m)
         else ([] @ [tagVal], m(tagVal \<mapsto> Name f)))"

text \<open>The loop of \<^verbatim>\<open>NewStructRecord\<close> over the visible fields.\<close>

fun extract_all ::
  "StructField list \<Rightarrow> string \<Rightarrow> string list \<Rightarrow> (string \<rightharpoonup> string)
     \<Rightarrow> string list \<times> (string \<rightharpoonup> string)" where
  "extract_all [] tag ts m = (ts, m)"
| "extract_all (sf # sfs) tag ts m =
     (if IsExported sf \<and> \<not> Anonymous sf
      then (case extract_key sf tag m of (ks, m') \<Rightarrow> extract_all sfs tag (ts @ ks) m')
      else extract_all sfs tag ts m)"

definition NewStructRecord :: "iface \<Rightarrow> string list \<Rightarrow> panic + (StructRecord \<times> error option)" where
  "NewStructRecord strct tagNames =
     (let tag = (if length tagNames > 0 then tagNames ! 0 else [])
      in case TypeOf strct of
           None \<Rightarrow> Inl NilTypeMethod
         | Some t0 \<Rightarrow>
             (case (if Type_Kind t0 = KPointer then Type_Elem t0 else Inr t0) of
                Inl e \<Rightarrow> Inl e
              | Inr t \<Rightarrow>
                  if Type_Kind t \<noteq> KStruct then Inr (zero_StructRecord, Some ErrNotAStruct)
                  else (case VisibleFields t of
                          Inl e \<Rightarrow> Inl e
                        | Inr vf \<Rightarrow>
                            (case extract_all vf tag [] Map.empty of
                               (ts, m) \<Rightarrow>
                                 Inr (\<lparr>tagName = tag, record_of = strct, tags = ts,
                                       tagsToName = m\<rparr>, None)))))"

definition In :: "StructRecord \<Rightarrow> iface" where
  "In sr = record_of sr"

text \<open>\<^verbatim>\<open>Get\<close> reads the store of the moment of the call.\<close>

definition Get :: "store \<Rightarrow> StructRecord \<Rightarrow> string \<Rightarrow> panic + (iface \<times> bool)" where
  "Get st sr key =
     (case tagsToName sr key of
        Some name \<Rightarrow>
          (case Indirect st (ValueOf (record_of sr)) of
             Inl e \<Rightarrow> Inl e
           | Inr v \<Rightarrow>
               (case Value_FieldByName st v name of
                  Inl e \<Rightarrow> Inl e
                | Inr fv \<Rightarrow>
                    (case Value_Interface fv of
                       Inl e \<Rightarrow> Inl e
                     | Inr i \<Rightarrow> Inr (i, True))))
      | None \<Rightarrow> Inr (Nil, False))"

definition GetKeys :: "StructRecord \<Rightarrow> string list" where
  "GetKeys sr = tags sr"

text \<open>
  The loop of \<^verbatim>\<open>GetVals\<close>; \<open>None\<close> is the nil slice that the loop returns when a key
  is not found.
\<close>

fun GetVals_loop ::
  "store \<Rightarrow> StructRecord \<Rightarrow> string list \<Rightarrow> iface list \<Rightarrow> panic + iface list option" where
  "GetVals_loop st sr [] vals = Inr (Some vals)"
| "GetVals_loop st sr (key # keys) vals =
     (case Get st sr key of
        Inl e \<Rightarrow> Inl e
      | Inr (v, ok) \<Rightarrow> if ok then GetVals_loop st sr keys (vals @ [v]) else Inr None)"

definition GetVals :: "store \<Rightarrow> StructRecord \<Rightarrow> panic + iface list option" where
  "GetVals st sr = GetVals_loop st sr (tags sr) []"

section \<open>Notions used to state the properties\<close>

text \<open>The first element of the variadic argument, as \<^verbatim>\<open>NewStructRecord\<close> reads it.\<close>

definition tag_of :: "string list \<Rightarrow> string" where
  "tag_of tagNames = (if length tagNames > 0 then tagNames ! 0 else [])"

text \<open>The struct type behind a type, after at most one pointer dereference.\<close>

fun struct_fields :: "gtype \<Rightarrow> fdecl list option" where
  "struct_fields (TStruct fs) = Some fs"
| "struct_fields (TPtr (TStruct fs)) = Some fs"
| "struct_fields _ = None"

text \<open>The list that \<^verbatim>\<open>VisibleFields\<close> returns for the struct type with the fields \<open>fs\<close>.\<close>

definition visible :: "fdecl list \<Rightarrow> StructField list" where
  "visible fs =
     filter (\<lambda>f. Name f \<noteq> []) (wfields (walk [] [] fs \<lparr>byName = Map.empty, wfields = []\<rparr>))"

text \<open>
  The key that \<^verbatim>\<open>extract\<close> computes for a field, and whether the loop of
  \<^verbatim>\<open>NewStructRecord\<close> records the field under it.
\<close>

definition key_of :: "string \<Rightarrow> StructField \<Rightarrow> string" where
  "key_of tag f =
     (if tag \<noteq> [] then takeWhile (\<lambda>c. c \<noteq> CHR '','') (StructTag_Get (Tag f) tag) else Name f)"

definition exposed :: "string \<Rightarrow> StructField \<Rightarrow> bool" where
  "exposed tag f =
     (IsExported f \<and> \<not> Anonymous f \<and> (tag = [] \<or> (key_of tag f \<noteq> [] \<and> key_of tag f \<noteq> ''-'')))"

text \<open>The map that the loop builds: a later field replaces an earlier one under the same key.\<close>

definition key_map :: "string \<Rightarrow> StructField list \<Rightarrow> (string \<rightharpoonup> string) \<Rightarrow> (string \<rightharpoonup> string)" where
  "key_map tag vf m = fold (\<lambda>f m. m(key_of tag f \<mapsto> Name f)) (filter (exposed tag) vf) m"

text \<open>
  \<open>struct_at st t x\<close>: the struct that the value \<open>x\<close> of the type \<open>t\<close> is, or that
  it points to in the store \<open>st\<close>, with the fields of its type. \<open>field_value st t x idx\<close>:
  the value that the field with the index \<open>idx\<close> has in the store \<open>st\<close>, reached from
  \<open>x\<close> as a selector \<^verbatim>\<open>x.f\<close> of Go reaches it: the fields of an embedded struct are in
  the struct that embeds it, those of a struct behind a pointer are in the store. There is
  no such value when a pointer on the way is nil.
\<close>

definition struct_at :: "store \<Rightarrow> gtype \<Rightarrow> val \<Rightarrow> (fdecl list \<times> val list) option" where
  "struct_at st t x =
     (case t of
        TStruct fs \<Rightarrow> (case x of StructV vs \<Rightarrow> Some (fs, vs) | _ \<Rightarrow> None)
      | TPtr (TStruct fs) \<Rightarrow>
          (case x of
             PtrV (Some a) \<Rightarrow> (case st a of Some (StructV vs) \<Rightarrow> Some (fs, vs) | _ \<Rightarrow> None)
           | _ \<Rightarrow> None)
      | _ \<Rightarrow> None)"

fun field_value :: "store \<Rightarrow> gtype \<Rightarrow> val \<Rightarrow> nat list \<Rightarrow> val option" where
  "field_value st t x [] = Some x"
| "field_value st t x (i # idx) =
     (case struct_at st t x of
        Some (fs, vs) \<Rightarrow>
          if i < length fs \<and> i < length vs then field_value st (dType (fs ! i)) (vs ! i) idx
          else None
      | None \<Rightarrow> None)"

text \<open>The assignment \<^verbatim>\<open>p.f = y\<close> to the \<open>i\<close>-th field of the struct at the address \<open>a\<close>.\<close>

definition assign_field :: "store \<Rightarrow> nat \<Rightarrow> nat \<Rightarrow> val \<Rightarrow> store" where
  "assign_field st a i y =
     (case st a of Some (StructV vs) \<Rightarrow> st(a \<mapsto> StructV (vs[i := y])) | _ \<Rightarrow> st)"

section \<open>Notions used in the proofs\<close>

text \<open>
  \<open>visits\<close> lists the fields that \<^verbatim>\<open>walk\<close> meets, each with the index under which it
  meets it: a field, then the fields of the struct it embeds, then the next field.
  \<open>walk_steps\<close> is the fold of \<open>walk_visit\<close> over such a list.
\<close>

fun visits :: "nat list \<Rightarrow> nat \<Rightarrow> fdecl list \<Rightarrow> (nat list \<times> StructField) list" where
  "visits index i [] = []"
| "visits index i (FDecl n p t tg a # ds) =
     (index @ [i], Type_Field (FDecl n p t tg a) i) #
     (if a
      then (case t of
              TPtr (TStruct gs) \<Rightarrow> visits (index @ [i]) 0 gs
            | TStruct gs \<Rightarrow> visits (index @ [i]) 0 gs
            | _ \<Rightarrow> [])
      else []) @
     visits index (Suc i) ds"

definition walk_steps :: "(nat list \<times> StructField) list \<Rightarrow> walker \<Rightarrow> walker" where
  "walk_steps vs w = fold (\<lambda>(idx, f). walk_visit idx f) vs w"

text \<open>
  \<open>preorder\<close> is the list of the fields met, each under its full index. \<open>cleared\<close>
  relates an entry of the walker to what a later step may have made of it. \<open>registry\<close>
  is the walker's invariant: \<open>byName\<close> points into \<open>wfields\<close>, and an entry whose
  name is not cleared is the one registered under its name.
\<close>

definition entry :: "nat list \<times> StructField \<Rightarrow> StructField" where
  "entry v = (snd v)\<lparr>Index := fst v\<rparr>"

definition preorder :: "fdecl list \<Rightarrow> StructField list" where
  "preorder fs = map entry (visits [] 0 fs)"

definition cleared :: "StructField \<Rightarrow> StructField \<Rightarrow> bool" where
  "cleared x y = (y = x \<or> y = x\<lparr>Name := []\<rparr>)"

definition registry :: "walker \<Rightarrow> bool" where
  "registry w =
     ((\<forall>n i. byName w n = Some i \<longrightarrow> i < length (wfields w)) \<and>
      (\<forall>i < length (wfields w).
         Name (wfields w ! i) \<noteq> [] \<longrightarrow> byName w (Name (wfields w ! i)) = Some i))"

text \<open>The struct that a field embeds, by value or through a pointer, if it embeds one.\<close>

fun embedded_struct :: "fdecl \<Rightarrow> fdecl list option" where
  "embedded_struct (FDecl n p t tg a) =
     (if a
      then (case t of TPtr (TStruct gs) \<Rightarrow> Some gs | TStruct gs \<Rightarrow> Some gs | _ \<Rightarrow> None)
      else None)"



section \<open>Example values\<close>

text \<open>
  The struct of the end-to-end scenario: \<^verbatim>\<open>ID int `db:"id"`\<close>,
  \<^verbatim>\<open>Name string `db:"name,omitempty"`\<close> and the unexported \<^verbatim>\<open>secret string\<close>.
\<close>

definition person_fields :: "fdecl list" where
  "person_fields =
     [FDecl ''ID'' [] TInt [(''db'', ''id'')] False,
      FDecl ''Name'' [] TString [(''db'', ''name,omitempty'')] False,
      FDecl ''secret'' ''message'' TString [] False]"

definition alice :: val where
  "alice = StructV [IntV 1, StringV ''alice'', StringV ''s3cr3t'']"

definition alice_value :: iface where
  "alice_value = Iface (TStruct person_fields) alice"

definition alice_db :: StructRecord where
  "alice_db =
     \<lparr>tagName = ''db'', record_of = alice_value, tags = [''id'', ''name''],
      tagsToName = [''id'' \<mapsto> ''ID'', ''name'' \<mapsto> ''Name'']\<rparr>"



definition account_fields :: "fdecl list" where
  "account_fields =
     [FDecl ''ID'' [] TInt [(''db'', ''id'')] False,
      FDecl ''Password'' [] TString [(''db'', ''-'')] False,
      FDecl ''Note'' [] TString [(''json'', ''note'')] False]"

definition account_value :: iface where
  "account_value = Iface (TStruct account_fields) (StructV [IntV 7, StringV ''pw'', StringV ''n''])"

definition account_db :: StructRecord where
  "account_db =
     \<lparr>tagName = ''db'', record_of = account_value, tags = [''id''],
      tagsToName = [''id'' \<mapsto> ''ID'']\<rparr>"

definition password_field :: StructField where
  "password_field =
     \<lparr>Name = ''Password'', PkgPath = [], Typ = TString, Tag = [(''db'', ''-'')], Index = [1],
      Anonymous = False\<rparr>"

definition address_fields :: "fdecl list" where
  "address_fields = [FDecl ''City'' [] TString [] False]"

definition employee_fields :: "fdecl list" where
  "employee_fields =
     [FDecl ''Address'' [] (TStruct address_fields) [] True,
      FDecl ''Name'' [] TString [] False]"

definition employee_value :: iface where
  "employee_value =
     Iface (TStruct employee_fields) (StructV [StructV [StringV ''Oslo''], StringV ''bob''])"

definition employee_record :: StructRecord where
  "employee_record =
     \<lparr>tagName = [], record_of = employee_value, tags = [''City'', ''Name''],
      tagsToName = [''City'' \<mapsto> ''City'', ''Name'' \<mapsto> ''Name'']\<rparr>"

definition address_field :: StructField where
  "address_field =
     \<lparr>Name = ''Address'', PkgPath = [], Typ = TStruct address_fields, Tag = [], Index = [0],
      Anonymous = True\<rparr>"

definition city_field :: StructField where
  "city_field =
     \<lparr>Name = ''City'', PkgPath = [], Typ = TString, Tag = [], Index = [0, 0], Anonymous = False\<rparr>"

text \<open>The caller's variable, at the address 0.\<close>

definition caller_store :: store where
  "caller_store = [0 \<mapsto> alice]"

text \<open>
  A struct that embeds a pointer: \<^verbatim>\<open>type Staff struct { *Address; Name string }\<close>. The
  adapter of a value \<open>v\<close> of this type or of a pointer to it, without a tag name;
  a pointer to a \<^verbatim>\<open>Staff\<close> at the address 0 whose embedded pointer is nil; and a
  \<^verbatim>\<open>Staff\<close> whose embedded pointer is the address 1, where an \<^verbatim>\<open>Address\<close> is.
\<close>

definition staff_fields :: "fdecl list" where
  "staff_fields =
     [FDecl ''Address'' [] (TPtr (TStruct address_fields)) [] True,
      FDecl ''Name'' [] TString [] False]"

definition staff_record :: "iface \<Rightarrow> StructRecord" where
  "staff_record v =
     \<lparr>tagName = [], record_of = v, tags = [''City'', ''Name''],
      tagsToName = [''City'' \<mapsto> ''City'', ''Name'' \<mapsto> ''Name'']\<rparr>"

definition staff_name_field :: StructField where
  "staff_name_field =
     \<lparr>Name = ''Name'', PkgPath = [], Typ = TString, Tag = [], Index = [1], Anonymous = False\<rparr>"

definition staff_city_field :: StructField where
  "staff_city_field =
     \<lparr>Name = ''City'', PkgPath = [], Typ = TString, Tag = [], Index = [0, 0], Anonymous = False\<rparr>"

definition staff_pointer :: iface where
  "staff_pointer = Iface (TPtr (TStruct staff_fields)) (PtrV (Some 0))"

definition staff_store :: store where
  "staff_store = [0 \<mapsto> StructV [PtrV None, StringV ''bob'']]"

definition staff_value :: iface where
  "staff_value = Iface (TStruct staff_fields) (StructV [PtrV (Some 1), StringV ''bob''])"

definition address_store :: store where
  "address_store = [1 \<mapsto> StructV [StringV ''Oslo'']]"




section \<open>Basic facts\<close>

lemma strings_Split_not_Nil: "strings_Split s sep \<noteq> []"
  by (induction s) auto

lemma hd_strings_Split: "hd (strings_Split s sep) = takeWhile (\<lambda>c. c \<noteq> sep) s"
  by (induction s) auto

lemma extract_key_eq:
  "extract_key f tag m =
     (if tag \<noteq> [] \<and> (key_of tag f = [] \<or> key_of tag f = ''-'') then ([], m)
      else ([key_of tag f], m(key_of tag f \<mapsto> Name f)))"
  by (simp add: extract_key_def key_of_def hd_strings_Split Let_def)

lemma extract_all_eq:
  "extract_all vf tag ts m =
     (ts @ map (key_of tag) (filter (exposed tag) vf), key_map tag vf m)"
proof (induction vf arbitrary: ts m)
  case Nil
  show ?case by (simp add: key_map_def)
next
  case (Cons sf sfs)
  show ?case
  proof (cases "exposed tag sf")
    case True
    then show ?thesis
      using Cons.IH by (auto simp: extract_key_eq exposed_def key_map_def)
  next
    case False
    then show ?thesis
      using Cons.IH by (auto simp: extract_key_eq exposed_def key_map_def)
  qed
qed

lemma VisibleFields_struct: "VisibleFields (TStruct fs) = Inr (visible fs)"
  by (simp add: VisibleFields_def visible_def)

lemma struct_fields_Some:
  "struct_fields t = Some fs \<longleftrightarrow> t = TStruct fs \<or> t = TPtr (TStruct fs)"
  by (induction t rule: struct_fields.induct) auto

lemma NewStructRecord_struct:
  assumes "struct_fields t = Some fs"
  shows "NewStructRecord (Iface t x) tagNames =
           Inr (\<lparr>tagName = tag_of tagNames, record_of = Iface t x,
                 tags = map (key_of (tag_of tagNames)) (filter (exposed (tag_of tagNames)) (visible fs)),
                 tagsToName = key_map (tag_of tagNames) (visible fs) Map.empty\<rparr>, None)"
  using assms
  by (auto simp: struct_fields_Some NewStructRecord_def tag_of_def VisibleFields_struct extract_all_eq Let_def)

lemma NewStructRecord_not_struct:
  assumes "struct_fields t = None"
  shows "NewStructRecord (Iface t x) tagNames = Inr (zero_StructRecord, Some ErrNotAStruct)"
  using assms
  by (induction t rule: struct_fields.induct) (simp_all add: NewStructRecord_def Let_def)

lemma NewStructRecord_Nil: "NewStructRecord Nil tagNames = Inl NilTypeMethod"
  by (simp add: NewStructRecord_def Let_def)

lemma NewStructRecord_success:
  assumes "NewStructRecord v tagNames = Inr (sr, None)"
  shows "\<exists>t x fs. v = Iface t x \<and> struct_fields t = Some fs \<and>
           sr = \<lparr>tagName = tag_of tagNames, record_of = v,
                 tags = map (key_of (tag_of tagNames)) (filter (exposed (tag_of tagNames)) (visible fs)),
                 tagsToName = key_map (tag_of tagNames) (visible fs) Map.empty\<rparr>"
proof (cases v)
  case Nil
  with assms show ?thesis by (simp add: NewStructRecord_Nil)
next
  case (Iface t x)
  show ?thesis
  proof (cases "struct_fields t")
    case None
    with assms Iface show ?thesis by (simp add: NewStructRecord_not_struct)
  next
    case (Some fs)
    with assms Iface show ?thesis by (auto simp: NewStructRecord_struct)
  qed
qed

lemma dom_key_map:
  "dom (key_map tag vf m) = dom m \<union> key_of tag ` set (filter (exposed tag) vf)"
  unfolding key_map_def
  by (induction vf arbitrary: m) auto

lemmas walk_eval =
  visible_def walk_visit_def Type_Field_def clear_name_def Let_def

lemma visible_person:
  "visible person_fields =
     [\<lparr>Name = ''ID'', PkgPath = [], Typ = TInt, Tag = [(''db'', ''id'')], Index = [0],
       Anonymous = False\<rparr>,
      \<lparr>Name = ''Name'', PkgPath = [], Typ = TString, Tag = [(''db'', ''name,omitempty'')],
       Index = [1], Anonymous = False\<rparr>,
      \<lparr>Name = ''secret'', PkgPath = ''message'', Typ = TString, Tag = [], Index = [2],
       Anonymous = False\<rparr>]"
  by (simp add: person_fields_def walk_eval)

lemma NewStructRecord_alice_db:
  "NewStructRecord (Iface (TStruct person_fields) alice) [''db''] =
     Inr (\<lparr>tagName = ''db'', record_of = Iface (TStruct person_fields) alice,
           tags = [''id'', ''name''],
           tagsToName = [''id'' \<mapsto> ''ID'', ''name'' \<mapsto> ''Name'']\<rparr>, None)"
  by (simp add: NewStructRecord_struct visible_person tag_of_def key_map_def exposed_def
      key_of_def IsExported_def StructTag_Get_def)

section \<open>The factory\<close>

text \<open>
  C10: \<^verbatim>\<open>NewStructRecord\<close> is not total. For the untyped nil, \<^verbatim>\<open>reflect.TypeOf\<close> yields
  the nil type descriptor and the call of \<^verbatim>\<open>Kind\<close> on it panics: the factory returns
  neither an adapter nor \<^verbatim>\<open>ErrNotAStruct\<close>, whatever the tag names are.
\<close>

theorem NewStructRecord_nil_panics:
  "NewStructRecord Nil tagNames = Inl NilTypeMethod \<and>
   (\<forall>sr e. NewStructRecord Nil tagNames \<noteq> Inr (sr, e))"
  by (simp add: NewStructRecord_Nil)

text \<open>
  C1: the outcome of \<^verbatim>\<open>NewStructRecord\<close> on every input. A value whose type is a struct
  after at most one pointer dereference gives an adapter and no error; a value of any
  other type gives the zero adapter and \<^verbatim>\<open>ErrNotAStruct\<close>; the untyped nil, which is
  not a struct, gives neither: the call panics.
\<close>

theorem NewStructRecord_outcome:
  "NewStructRecord v tagNames =
     (case v of
        Nil \<Rightarrow> Inl NilTypeMethod
      | Iface t x \<Rightarrow>
          (case struct_fields t of
             None \<Rightarrow> Inr (zero_StructRecord, Some ErrNotAStruct)
           | Some fs \<Rightarrow>
               Inr (\<lparr>tagName = tag_of tagNames, record_of = v,
                     tags = map (key_of (tag_of tagNames))
                              (filter (exposed (tag_of tagNames)) (visible fs)),
                     tagsToName = key_map (tag_of tagNames) (visible fs) Map.empty\<rparr>, None))) \<and>
   NewStructRecord Nil tagNames \<noteq> Inr (zero_StructRecord, Some ErrNotAStruct)"
  by (simp add: NewStructRecord_Nil NewStructRecord_struct NewStructRecord_not_struct
      split: iface.split option.split)

section \<open>Keys from tags\<close>

lemma key_of_comma:
  assumes "tag \<noteq> []" "StructTag_Get (Tag f) tag = k @ CHR '','' # rest" "CHR '','' \<notin> set k"
  shows "key_of tag f = k"
  using assms by (auto simp: key_of_def takeWhile_tail)

lemma key_of_no_comma:
  assumes "tag \<noteq> []"
  shows "CHR '','' \<notin> set (key_of tag f)"
  using assms by (auto simp: key_of_def dest: set_takeWhileD)

text \<open>
  C6: with a non-empty tag name, a field whose tag value has a comma contributes the part
  before the first comma and nothing else: \<^verbatim>\<open>extract\<close> returns that part as the only
  key (or no key when the part is empty or \<^verbatim>\<open>-\<close>), and no key of the adapter, in the
  sequence or in the map, contains a comma.
\<close>

theorem tag_suffix_dropped:
  assumes "NewStructRecord v tagNames = Inr (sr, None)"
    and "tag_of tagNames \<noteq> []"
    and "StructTag_Get (Tag f) (tag_of tagNames) = k @ CHR '','' # rest"
    and "CHR '','' \<notin> set k"
  shows "extract_key f (tag_of tagNames) m =
           (if k = [] \<or> k = ''-'' then ([], m) else ([k], m(k \<mapsto> Name f))) \<and>
         (\<forall>key \<in> set (GetKeys sr). CHR '','' \<notin> set key) \<and>
         (\<forall>key \<in> dom (tagsToName sr). CHR '','' \<notin> set key)"
proof -
  have k: "key_of (tag_of tagNames) f = k"
    using assms(2-4) by (rule key_of_comma)
  obtain t x fs where sr: "sr = \<lparr>tagName = tag_of tagNames, record_of = v,
         tags = map (key_of (tag_of tagNames)) (filter (exposed (tag_of tagNames)) (visible fs)),
         tagsToName = key_map (tag_of tagNames) (visible fs) Map.empty\<rparr>"
    using NewStructRecord_success [OF assms(1)] by blast
  have "extract_key f (tag_of tagNames) m =
           (if k = [] \<or> k = ''-'' then ([], m) else ([k], m(k \<mapsto> Name f)))"
    using assms(2) by (simp add: extract_key_eq k)
  moreover have "\<forall>key \<in> set (GetKeys sr). CHR '','' \<notin> set key"
    using key_of_no_comma [OF assms(2)] by (auto simp: sr GetKeys_def)
  moreover have "\<forall>key \<in> dom (tagsToName sr). CHR '','' \<notin> set key"
    using key_of_no_comma [OF assms(2)] by (auto simp: sr dom_key_map)
  ultimately show ?thesis by blast
qed

theorem tag_suffix_dropped_witness:
  "NewStructRecord (Iface (TStruct person_fields) alice) [''db''] =
     Inr (\<lparr>tagName = ''db'', record_of = Iface (TStruct person_fields) alice,
           tags = [''id'', ''name''],
           tagsToName = [''id'' \<mapsto> ''ID'', ''name'' \<mapsto> ''Name'']\<rparr>, None) \<and>
   StructTag_Get [(''db'', ''name,omitempty'')] ''db'' = ''name'' @ CHR '','' # ''omitempty'' \<and>
   extract_key \<lparr>Name = ''Name'', PkgPath = [], Typ = TString,
       Tag = [(''db'', ''name,omitempty'')], Index = [1], Anonymous = False\<rparr> ''db'' Map.empty =
     ([''name''], [''name'' \<mapsto> ''Name'']) \<and>
   GetKeys \<lparr>tagName = ''db'', record_of = Iface (TStruct person_fields) alice,
           tags = [''id'', ''name''],
           tagsToName = [''id'' \<mapsto> ''ID'', ''name'' \<mapsto> ''Name'']\<rparr> = [''id'', ''name'']"
proof -
  let ?f = "\<lparr>Name = ''Name'', PkgPath = [], Typ = TString,
       Tag = [(''db'', ''name,omitempty'')], Index = [1], Anonymous = False\<rparr>"
  have h2: "tag_of [''db''] \<noteq> []" by (simp add: tag_of_def)
  have h3: "StructTag_Get (Tag ?f) (tag_of [''db'']) = ''name'' @ CHR '','' # ''omitempty''"
    by (simp add: StructTag_Get_def tag_of_def)
  have h4: "CHR '','' \<notin> set ''name''" by simp
  show ?thesis
    using tag_suffix_dropped [OF NewStructRecord_alice_db h2 h3 h4, of Map.empty] h3
    by (simp add: tag_of_def GetKeys_def NewStructRecord_alice_db)
qed

section \<open>The walker as a fold over the fields in index preorder\<close>

text \<open>
  In a finite type tree no struct type is reached again below itself, so the test of
  \<^verbatim>\<open>visiting\<close> never fires and the walker is the fold of \<open>walk_visit\<close> over \<open>visits\<close>.
\<close>

lemma walk_steps_simps [simp]:
  "walk_steps [] w = w"
  "walk_steps ((idx, f) # vs) w = walk_steps vs (walk_visit idx f w)"
  "walk_steps (vs @ vs') w = walk_steps vs' (walk_steps vs w)"
  by (simp_all add: walk_steps_def)

lemma walk_is_walk_steps:
  "(\<forall>v \<in> set visiting. size (TStruct fs) < size v) \<Longrightarrow>
     walk visiting index fs w = walk_steps (visits index 0 fs) w"
  "(\<forall>v \<in> set visiting. size_list size ds < size v) \<Longrightarrow>
     walk_fields visiting index i ds w = walk_steps (visits index i ds) w"
proof (induction visiting index fs w and visiting index i ds w rule: walk_walk_fields.induct)
  case (1 visiting index fs w)
  have "TStruct fs \<notin> set visiting"
    using "1.prems" by auto
  moreover have "\<forall>v \<in> set (TStruct fs # visiting). size_list size fs < size v"
    using "1.prems" by auto
  ultimately show ?case
    using "1.IH" by simp
next
  case (2 visiting index i w)
  show ?case by simp
next
  case (3 visiting index i n p t tg a ds w)
  let ?idx = "index @ [i]"
  let ?w2 = "walk_visit ?idx (Type_Field (FDecl n p t tg a) i) w"
  let ?sub = "(if a then (case t of TPtr (TStruct gs) \<Rightarrow> visits ?idx 0 gs
                 | TStruct gs \<Rightarrow> visits ?idx 0 gs | _ \<Rightarrow> []) else [])"
  let ?w3 = "(if a then (case t of TPtr (TStruct gs) \<Rightarrow> walk visiting ?idx gs ?w2
                 | TStruct gs \<Rightarrow> walk visiting ?idx gs ?w2 | _ \<Rightarrow> ?w2) else ?w2)"
  have sub: "?w3 = walk_steps ?sub ?w2"
  proof (cases a)
    case False
    then show ?thesis by simp
  next
    case True
    show ?thesis
    proof (cases t)
      case (TStruct gs)
      have "\<forall>v \<in> set visiting. size (TStruct gs) < size v"
        using "3.prems" TStruct by auto
      then show ?thesis
        using "3.IH"(2) [OF refl refl True TStruct] True TStruct by simp
    next
      case (TPtr u)
      show ?thesis
      proof (cases u)
        case (TStruct gs)
        have "\<forall>v \<in> set visiting. size (TStruct gs) < size v"
          using "3.prems" TPtr TStruct by auto
        then show ?thesis
          using "3.IH"(1) [OF refl refl True TPtr TStruct] True TPtr TStruct by simp
      qed (use True TPtr in simp_all)
    qed (use True in simp_all)
  qed
  have "\<forall>v \<in> set visiting. size_list size ds < size v"
    using "3.prems" by auto
  then have rest:
    "walk_fields visiting index (Suc i) ds ?w3 = walk_steps (visits index (Suc i) ds) ?w3"
    using "3.IH"(3) [OF refl refl refl] by blast
  show ?case
    using sub rest by (simp add: Let_def)
qed

lemma visible_walk_steps:
  "visible fs =
     filter (\<lambda>f. Name f \<noteq> [])
       (wfields (walk_steps (visits [] 0 fs) \<lparr>byName = Map.empty, wfields = []\<rparr>))"
  using walk_is_walk_steps(1) [of "[]" fs "[]"] by (simp add: visible_def del: walk.simps)

section \<open>What the walker keeps\<close>

text \<open>
  The visible fields are a subsequence of \<open>preorder\<close>, and their names are distinct.
\<close>

lemma cleared_refl: "cleared x x"
  by (simp add: cleared_def)

lemma cleared_trans: "cleared x y \<Longrightarrow> cleared y z \<Longrightarrow> cleared x z"
  by (auto simp: cleared_def)

lemma list_all2_cleared_refl: "list_all2 cleared xs xs"
  by (simp add: list_all2_refl cleared_refl)

lemma list_all2_cleared_trans:
  "list_all2 cleared xs ys \<Longrightarrow> list_all2 cleared ys zs \<Longrightarrow> list_all2 cleared xs zs"
  using list_all2_trans [of cleared cleared cleared xs ys zs] cleared_trans by blast

lemma list_all2_cleared_update:
  "list_all2 cleared xs (xs[i := (xs ! i)\<lparr>Name := []\<rparr>])"
  by (cases "i < length xs") (auto simp: list_all2_conv_all_nth cleared_def nth_list_update)

lemma wfields_walk_visit:
  "\<exists>old new. wfields (walk_visit idx f w) = old @ new \<and> list_all2 cleared (wfields w) old \<and>
      (new = [] \<or> new = [entry (idx, f)])"
proof (cases "byName w (Name f)")
  case None
  then have "wfields (walk_visit idx f w) = wfields w @ [entry (idx, f)]"
    by (simp add: walk_visit_def entry_def)
  then show ?thesis
    using list_all2_cleared_refl by blast
next
  case (Some oldIndex)
  let ?c = "(wfields w)[oldIndex := (wfields w ! oldIndex)\<lparr>Name := []\<rparr>]"
  consider "wfields (walk_visit idx f w) = ?c" | "wfields (walk_visit idx f w) = ?c @ [entry (idx, f)]"
    | "wfields (walk_visit idx f w) = wfields w"
    using Some
    by (cases "length idx = length (Index (wfields w ! oldIndex))";
        cases "length idx < length (Index (wfields w ! oldIndex))")
      (simp_all add: walk_visit_def clear_name_def entry_def)
  then show ?thesis
  proof cases
    case 1
    then have "wfields (walk_visit idx f w) = ?c @ []" by simp
    then show ?thesis using list_all2_cleared_update by blast
  next
    case 2
    then show ?thesis using list_all2_cleared_update by blast
  next
    case 3
    then have "wfields (walk_visit idx f w) = wfields w @ []" by simp
    then show ?thesis using list_all2_cleared_refl by blast
  qed
qed

lemma wfields_walk_steps:
  "\<exists>old new sub. wfields (walk_steps vs w) = old @ new \<and> list_all2 cleared (wfields w) old \<and>
      subseq sub (map entry vs) \<and> list_all2 cleared sub new"
proof (induction vs arbitrary: w)
  case Nil
  have "wfields (walk_steps [] w) = wfields w @ []" by simp
  moreover have "subseq [] (map entry [])" by simp
  ultimately show ?case
    using list_all2_cleared_refl by blast
next
  case (Cons v vs)
  obtain idx f where v: "v = (idx, f)" by (cases v)
  obtain o1 n1 where 1: "wfields (walk_visit idx f w) = o1 @ n1"
      "list_all2 cleared (wfields w) o1" "n1 = [] \<or> n1 = [entry (idx, f)]"
    using wfields_walk_visit by blast
  obtain o2 n2 sub2 where 2: "wfields (walk_steps vs (walk_visit idx f w)) = o2 @ n2"
      "list_all2 cleared (wfields (walk_visit idx f w)) o2"
      "subseq sub2 (map entry vs)" "list_all2 cleared sub2 n2"
    using Cons.IH by blast
  obtain o2a o2b where 3: "o2 = o2a @ o2b" "list_all2 cleared o1 o2a" "list_all2 cleared n1 o2b"
    using 2(2) unfolding 1(1) by (auto simp: list_all2_append1)
  have a: "wfields (walk_steps (v # vs) w) = o2a @ (o2b @ n2)"
    using 2(1) 3(1) v by simp
  have b: "list_all2 cleared (wfields w) o2a"
    using 1(2) 3(2) by (rule list_all2_cleared_trans)
  have c: "subseq (n1 @ sub2) (map entry (v # vs))"
    using 1(3) 2(3) v by auto
  have d: "list_all2 cleared (n1 @ sub2) (o2b @ n2)"
    using 3(3) 2(4) by (rule list_all2_appendI)
  show ?case
    using a b c d by blast
qed

lemma subseq_filter_cleared:
  "list_all2 cleared sub new \<Longrightarrow> subseq (filter (\<lambda>f. Name f \<noteq> []) new) sub"
proof (induction rule: list_all2_induct)
  case Nil
  show ?case by simp
next
  case (Cons x xs y ys)
  then show ?case
    by (auto simp: cleared_def)
qed

lemma subseq_visible_preorder: "subseq (visible fs) (preorder fs)"
proof -
  obtain old new sub where 1:
      "wfields (walk_steps (visits [] 0 fs) \<lparr>byName = Map.empty, wfields = []\<rparr>) = old @ new"
      "list_all2 cleared (wfields \<lparr>byName = Map.empty, wfields = []\<rparr>) old"
      "subseq sub (map entry (visits [] 0 fs))" "list_all2 cleared sub new"
    using wfields_walk_steps by blast
  have "old = []" using 1(2) by simp
  then have "visible fs = filter (\<lambda>f. Name f \<noteq> []) new"
    using 1(1) by (simp add: visible_walk_steps)
  then have "subseq (visible fs) sub"
    using subseq_filter_cleared [OF 1(4)] by simp
  then show ?thesis
    using 1(3) unfolding preorder_def by (rule subseq_order.trans)
qed

lemma registry_walk_visit:
  assumes "registry w"
  shows "registry (walk_visit idx f w)"
proof (cases "byName w (Name f)")
  case None
  have "\<forall>i < length (wfields w). Name (wfields w ! i) \<noteq> Name f \<or> Name (wfields w ! i) = []"
    using assms None by (auto simp: registry_def)
  then show ?thesis
    using assms None
    by (auto simp: registry_def walk_visit_def nth_append less_Suc_eq)
next
  case (Some oldIndex)
  have old: "oldIndex < length (wfields w)"
    using assms Some by (simp add: registry_def)
  have uniq: "\<forall>i < length (wfields w). i \<noteq> oldIndex \<longrightarrow>
                Name (wfields w ! i) \<noteq> Name f \<or> Name (wfields w ! i) = []"
    using assms Some by (auto simp: registry_def)
  show ?thesis
    using assms Some old uniq
    by (auto simp: registry_def walk_visit_def clear_name_def nth_append nth_list_update
        less_Suc_eq)
qed

lemma registry_walk_steps: "registry w \<Longrightarrow> registry (walk_steps vs w)"
  by (induction vs arbitrary: w) (auto simp: registry_walk_visit)

lemma distinct_map_filter_nth:
  assumes "\<forall>i < length xs. \<forall>j < length xs. i \<noteq> j \<longrightarrow> P (xs ! i) \<longrightarrow> P (xs ! j) \<longrightarrow> g (xs ! i) \<noteq> g (xs ! j)"
  shows "distinct (map g (filter P xs))"
  using assms
proof (induction xs)
  case Nil
  show ?case by simp
next
  case (Cons x xs)
  have tl: "\<forall>i < length xs. \<forall>j < length xs. i \<noteq> j \<longrightarrow> P (xs ! i) \<longrightarrow> P (xs ! j) \<longrightarrow> g (xs ! i) \<noteq> g (xs ! j)"
  proof (intro allI impI)
    fix i j
    assume "i < length xs" "j < length xs" "i \<noteq> j" "P (xs ! i)" "P (xs ! j)"
    then show "g (xs ! i) \<noteq> g (xs ! j)"
      using Cons.prems [rule_format, of "Suc i" "Suc j"] by simp
  qed
  have hd: "g x \<noteq> g y" if px: "P x" and y: "y \<in> set xs" and py: "P y" for y
  proof -
    obtain j where "j < length xs" "xs ! j = y"
      using y by (auto simp: in_set_conv_nth)
    then show ?thesis
      using Cons.prems [rule_format, of 0 "Suc j"] px py by simp
  qed
  show ?case
    using Cons.IH [OF tl] hd by auto
qed

lemma distinct_Name_visible: "distinct (map Name (visible fs))"
proof -
  let ?w = "walk_steps (visits [] 0 fs) \<lparr>byName = Map.empty, wfields = []\<rparr>"
  have "registry \<lparr>byName = Map.empty, wfields = []\<rparr>"
    by (simp add: registry_def)
  then have r: "registry ?w"
    by (rule registry_walk_steps)
  have "distinct (map Name (filter (\<lambda>f. Name f \<noteq> []) (wfields ?w)))"
  proof (rule distinct_map_filter_nth, intro allI impI)
    fix i j
    assume "i < length (wfields ?w)" "j < length (wfields ?w)" "i \<noteq> j"
      "Name (wfields ?w ! i) \<noteq> []" "Name (wfields ?w ! j) \<noteq> []"
    then show "Name (wfields ?w ! i) \<noteq> Name (wfields ?w ! j)"
      using r unfolding registry_def by (metis option.inject)
  qed
  then show ?thesis
    by (simp add: visible_walk_steps)
qed

section \<open>The order of the visible fields\<close>

text \<open>
  The indices of \<open>preorder\<close> increase strictly in the lexicographic order: a field comes
  before the fields declared after it, and an embedded struct comes right before the
  fields it promotes. The visible fields keep that order.
\<close>

lemma visits_Cons:
  "visits index i (d # ds) =
     (index @ [i], Type_Field d i) #
     (case embedded_struct d of Some gs \<Rightarrow> visits (index @ [i]) 0 gs | None \<Rightarrow> []) @
     visits index (Suc i) ds"
  by (cases d) (simp split: gtype.split)

lemma visits_induct [case_names Nil Cons]:
  assumes nil: "\<And>index i. P index i []"
    and cons: "\<And>index i d ds.
      (\<And>gs. embedded_struct d = Some gs \<Longrightarrow> P (index @ [i]) 0 gs) \<Longrightarrow>
      P index (Suc i) ds \<Longrightarrow> P index i (d # ds)"
  shows "P index i ds"
proof (induction index i ds rule: visits.induct)
  case (1 index i)
  show ?case by (rule nil)
next
  case (2 index i n p t tg a ds)
  show ?case
  proof (rule cons)
    fix gs
    assume "embedded_struct (FDecl n p t tg a) = Some gs"
    then show "P (index @ [i]) 0 gs"
      using "2.IH"(1,2) by (auto split: if_splits gtype.splits)
  next
    show "P index (Suc i) ds" by (rule "2.IH"(3))
  qed
qed

lemma less_append_same: "ys \<noteq> [] \<Longrightarrow> xs < xs @ (ys :: nat list)"
  by (induction xs) (auto simp: neq_Nil_conv)

lemma append_less_append: "xs @ ys < xs @ zs \<longleftrightarrow> ys < (zs :: nat list)"
  by (induction xs) auto

lemma sorted_wrt_Cons_append:
  assumes "\<forall>y \<in> set ys. P x y" and "\<forall>z \<in> set zs. P x z"
    and "\<forall>y \<in> set ys. \<forall>z \<in> set zs. P y z"
    and "sorted_wrt P ys" and "sorted_wrt P zs"
  shows "sorted_wrt P (x # ys @ zs)"
  using assms by (auto simp: sorted_wrt_append)

lemma visits_index_shape:
  "(idx, f) \<in> set (visits index i ds) \<Longrightarrow> \<exists>j r. idx = index @ j # r \<and> i \<le> j"
proof (induction index i ds rule: visits_induct)
  case (Nil index i)
  then show ?case by simp
next
  case (Cons index i d ds)
  from Cons.prems consider "idx = index @ [i]"
    | gs where "embedded_struct d = Some gs" "(idx, f) \<in> set (visits (index @ [i]) 0 gs)"
    | "(idx, f) \<in> set (visits index (Suc i) ds)"
    by (cases "embedded_struct d") (auto simp: visits_Cons)
  then show ?case
  proof cases
    case 1
    then show ?thesis by simp
  next
    case 2
    then obtain j r where "idx = (index @ [i]) @ j # r"
      using Cons.IH(1) by blast
    then show ?thesis by simp
  next
    case 3
    then obtain j r where "idx = index @ j # r" "Suc i \<le> j"
      using Cons.IH(2) by blast
    then show ?thesis by auto
  qed
qed

lemma sorted_visits: "sorted_wrt (<) (map fst (visits index i ds))"
proof (induction index i ds rule: visits_induct)
  case (Nil index i)
  show ?case by simp
next
  case (Cons index i d ds)
  let ?sub = "(case embedded_struct d of Some gs \<Rightarrow> visits (index @ [i]) 0 gs | None \<Rightarrow> [])"
  let ?rest = "visits index (Suc i) ds"
  have sub_shape: "\<exists>j r. idx = index @ i # j # r" if mem: "idx \<in> fst ` set ?sub" for idx
  proof -
    obtain gs f where "embedded_struct d = Some gs" "(idx, f) \<in> set (visits (index @ [i]) 0 gs)"
      using mem by (cases "embedded_struct d") auto
    then show ?thesis
      using visits_index_shape [of idx f "index @ [i]" 0 gs] by auto
  qed
  have rest_shape: "\<exists>j r. idx = index @ j # r \<and> i < j" if "idx \<in> fst ` set ?rest" for idx
    using that visits_index_shape [of idx _ index "Suc i" ds] by (auto simp: Suc_le_eq)
  have 1: "\<forall>idx \<in> set (map fst ?sub). index @ [i] < idx"
  proof (intro ballI)
    fix idx
    assume "idx \<in> set (map fst ?sub)"
    then have "idx \<in> fst ` set ?sub" by (simp only: set_map)
    then obtain j r where "idx = index @ i # j # r"
      using sub_shape by blast
    then show "index @ [i] < idx"
      by (simp add: append_less_append)
  qed
  have 2: "\<forall>idx \<in> set (map fst ?rest). index @ [i] < idx"
  proof (intro ballI)
    fix idx
    assume "idx \<in> set (map fst ?rest)"
    then have "idx \<in> fst ` set ?rest" by (simp only: set_map)
    then obtain j r where "idx = index @ j # r" "i < j"
      using rest_shape by blast
    then show "index @ [i] < idx"
      by (simp add: append_less_append)
  qed
  have 3: "\<forall>a \<in> set (map fst ?sub). \<forall>b \<in> set (map fst ?rest). a < b"
  proof (intro ballI)
    fix a b
    assume "a \<in> set (map fst ?sub)" and "b \<in> set (map fst ?rest)"
    then have "a \<in> fst ` set ?sub" and "b \<in> fst ` set ?rest" by (simp_all only: set_map)
    then obtain j r j' r' where "a = index @ i # j # r" "b = index @ j' # r'" "i < j'"
      using sub_shape [of a] rest_shape [of b] by blast
    then show "a < b"
      by (simp add: append_less_append)
  qed
  have 4: "sorted_wrt (<) (map fst ?sub)"
    using Cons.IH(1) by (cases "embedded_struct d") auto
  have "sorted_wrt (<) ((index @ [i]) # map fst ?sub @ map fst ?rest)"
    by (rule sorted_wrt_Cons_append [OF 1 2 3 4 Cons.IH(2)])
  then show ?case
    by (simp add: visits_Cons)
qed

lemma subseq_sorted_wrt: "subseq xs ys \<Longrightarrow> sorted_wrt P ys \<Longrightarrow> sorted_wrt P xs"
proof (induction rule: list_emb.induct)
  case (list_emb_Nil ys)
  show ?case by simp
next
  case (list_emb_Cons xs ys y)
  then show ?case by simp
next
  case (list_emb_Cons2 x y xs ys)
  have "set xs \<subseteq> set ys"
    using list_emb_Cons2.hyps(2) by (auto dest: list_emb_set)
  then show ?case
    using list_emb_Cons2 by auto
qed

lemma Index_entry [simp]: "Index (entry (idx, f)) = idx"
  by (simp add: entry_def)

lemma sorted_Index_preorder: "sorted_wrt (<) (map Index (preorder fs))"
proof -
  have "map Index (preorder fs) = map fst (visits [] 0 fs)"
    by (auto simp: preorder_def)
  then show ?thesis
    by (simp add: sorted_visits)
qed

lemma sorted_Index_visible: "sorted_wrt (<) (map Index (visible fs))"
  using subseq_map [OF subseq_visible_preorder, of Index fs] sorted_Index_preorder
  by (rule subseq_sorted_wrt)

section \<open>Reading a visible field\<close>




lemma FieldByIndex_loop_step:
  assumes "rest \<noteq> []" and "embedded_step st v = Inr v'"
  shows "FieldByIndex_loop st v False rest = FieldByIndex_loop st v' True rest"
  using assms by (cases rest) simp_all

lemma embedded_struct_dEmbedded: "embedded_struct d = Some gs \<Longrightarrow> dEmbedded d"
  by (cases d) (auto split: if_splits)

lemma Cons_eq_dropD:
  assumes "d # ds = drop i fs"
  shows "i < length fs \<and> d = fs ! i \<and> ds = drop (Suc i) fs"
proof -
  have i: "i < length fs"
    using assms by (cases "i < length fs") auto
  then have "fs ! i # drop (Suc i) fs = d # ds"
    using assms by (simp add: Cons_nth_drop_Suc)
  then show ?thesis
    using i by simp
qed


section \<open>Get on an adapter of the factory\<close>

text \<open>
  For a live value \<^verbatim>\<open>Get\<close> returns, for every key of the map, the value of the field
  recorded under the key.
\<close>

lemma key_map_Cons:
  "key_map tag (f # vf) m =
     key_map tag vf (if exposed tag f then m(key_of tag f \<mapsto> Name f) else m)"
  by (simp add: key_map_def)

lemma key_map_last:
  "key_map tag vf m k =
     (case filter (\<lambda>f. exposed tag f \<and> key_of tag f = k) vf of
        [] \<Rightarrow> m k
      | g # gs \<Rightarrow> Some (Name (last (g # gs))))"
proof (induction vf arbitrary: m)
  case Nil
  show ?case by (simp add: key_map_def)
next
  case (Cons f vf)
  show ?case
  proof (cases "filter (\<lambda>f. exposed tag f \<and> key_of tag f = k) vf")
    case Nil
    then show ?thesis
      by (auto simp: key_map_Cons Cons.IH)
  next
    case (Cons g gs)
    then show ?thesis
      by (auto simp: key_map_Cons Cons.IH)
  qed
qed

lemma key_map_SomeD:
  assumes "key_map tag vf Map.empty k = Some name"
  shows "\<exists>f \<in> set vf. exposed tag f \<and> key_of tag f = k \<and> name = Name f"
proof (cases "filter (\<lambda>f. exposed tag f \<and> key_of tag f = k) vf")
  case Nil
  then show ?thesis
    using assms by (simp add: key_map_last)
next
  case (Cons g gs)
  then have "name = Name (last (g # gs))"
    using assms by (simp add: key_map_last)
  moreover have "last (g # gs) \<in> set (filter (\<lambda>f. exposed tag f \<and> key_of tag f = k) vf)"
    unfolding Cons by (rule last_in_set) simp
  ultimately show ?thesis
    by auto
qed

lemma find_distinct:
  "distinct (map g xs) \<Longrightarrow> x \<in> set xs \<Longrightarrow> find (\<lambda>y. g y = g x) xs = Some x"
  by (induction xs) auto

lemma Type_FieldByName_visible:
  assumes "f \<in> set (visible fs)"
  shows "Type_FieldByName (TStruct fs) (Name f) = Some f"
  using find_distinct [OF distinct_Name_visible assms]
  by (simp add: Type_FieldByName_def VisibleFields_struct)

lemma visible_in_visits:
  assumes "f \<in> set (visible fs)"
  shows "\<exists>f0. (Index f, f0) \<in> set (visits [] 0 fs) \<and> f = f0\<lparr>Index := Index f\<rparr>"
proof -
  have "f \<in> set (preorder fs)"
    using subseq_visible_preorder assms by (auto dest: list_emb_set)
  then show ?thesis
    by (auto simp: preorder_def entry_def)
qed

lemma FieldByIndex_is_loop:
  assumes "idx \<noteq> []"
  shows "Value_FieldByIndex st (Val (TStruct fs) x s e) idx =
           FieldByIndex_loop st (Val (TStruct fs) x s e) True idx"
proof (cases "length idx = 1")
  case True
  then obtain i where "idx = [i]"
    by (cases idx) auto
  then show ?thesis
    by (simp add: Value_FieldByIndex_def split: sum.split)
next
  case False
  then show ?thesis
    by (simp add: Value_FieldByIndex_def)
qed





lemma GetVals_loop_not_nil:
  assumes "set keys \<subseteq> dom (tagsToName sr)"
  shows "GetVals_loop st sr keys vals \<noteq> Inr None"
  using assms
proof (induction keys arbitrary: vals)
  case Nil
  show ?case by simp
next
  case (Cons k keys)
  then obtain name where "tagsToName sr k = Some name"
    by auto
  then have "Get st sr k \<noteq> Inr (i, False)" for i
    by (auto simp: Get_def split: sum.splits)
  then show ?case
    using Cons by (auto split: sum.splits)
qed

section \<open>Keys and values\<close>

lemma NewStructRecord_alice_value: "NewStructRecord alice_value [''db''] = Inr (alice_db, None)"
  by (simp add: alice_value_def alice_db_def NewStructRecord_alice_db)


lemmas Get_eval =
  Get_def Indirect_def Value_FieldByName_def Type_FieldByName_def VisibleFields_struct
  Value_FieldByIndex_def

lemma Get_alice_db:
  "Get Map.empty alice_db ''id'' = Inr (Iface TInt (IntV 1), True)"
  "Get Map.empty alice_db ''name'' = Inr (Iface TString (StringV ''alice''), True)"
  "Get Map.empty alice_db ''secret'' = Inr (Nil, False)"
  by (simp_all add: alice_db_def alice_value_def Get_eval visible_person)
     (simp_all add: person_fields_def alice_def)

lemma tags_alice_db: "tags alice_db = [''id'', ''name'']"
  by (simp add: alice_db_def)

lemma GetVals_alice_db:
  "GetVals Map.empty alice_db =
     Inr (Some [Iface TInt (IntV 1), Iface TString (StringV ''alice'')])"
  by (simp add: GetVals_def tags_alice_db Get_alice_db)

lemma tags_subset_dom:
  assumes "NewStructRecord v tagNames = Inr (sr, None)"
  shows "set (tags sr) \<subseteq> dom (tagsToName sr)"
proof -
  obtain t x fs where sr: "sr = \<lparr>tagName = tag_of tagNames, record_of = v,
         tags = map (key_of (tag_of tagNames)) (filter (exposed (tag_of tagNames)) (visible fs)),
         tagsToName = key_map (tag_of tagNames) (visible fs) Map.empty\<rparr>"
    using NewStructRecord_success [OF assms] by blast
  show ?thesis
    by (simp add: sr dom_key_map)
qed

text \<open>
  C8: in an adapter of the factory every key of the sequence is a key of the map, so the
  loop of \<^verbatim>\<open>GetVals\<close> never takes the branch that returns the nil slice, in any store.
\<close>

theorem keys_in_map:
  assumes "NewStructRecord v tagNames = Inr (sr, None)"
  shows "set (tags sr) \<subseteq> dom (tagsToName sr) \<and> GetVals st sr \<noteq> Inr None"
proof -
  have sub: "set (tags sr) \<subseteq> dom (tagsToName sr)"
    using assms by (rule tags_subset_dom)
  then have "GetVals st sr \<noteq> Inr None"
    unfolding GetVals_def by (rule GetVals_loop_not_nil)
  then show ?thesis
    using sub by simp
qed

theorem keys_in_map_witness:
  "NewStructRecord alice_value [''db''] = Inr (alice_db, None) \<and>
   set (tags alice_db) \<subseteq> dom (tagsToName alice_db) \<and>
   GetVals Map.empty alice_db \<noteq> Inr None"
  using keys_in_map [OF NewStructRecord_alice_value, of Map.empty]
  by (simp add: NewStructRecord_alice_value)






lemma visible_account:
  "visible account_fields =
     [\<lparr>Name = ''ID'', PkgPath = [], Typ = TInt, Tag = [(''db'', ''id'')], Index = [0],
       Anonymous = False\<rparr>,
      password_field,
      \<lparr>Name = ''Note'', PkgPath = [], Typ = TString, Tag = [(''json'', ''note'')], Index = [2],
       Anonymous = False\<rparr>]"
  by (simp add: account_fields_def password_field_def walk_eval)

lemma NewStructRecord_account: "NewStructRecord account_value [''db''] = Inr (account_db, None)"
  by (simp add: account_value_def account_db_def NewStructRecord_struct visible_account
      password_field_def tag_of_def key_map_def exposed_def key_of_def IsExported_def
      StructTag_Get_def)

lemma distinct_Name_eq:
  assumes "f \<in> set (visible fs)" and "g \<in> set (visible fs)" and "Name f = Name g"
  shows "f = g"
  using distinct_Name_visible [of fs] assms by (auto simp: distinct_map dest: inj_onD)

lemma tagsToName_SomeD:
  assumes "NewStructRecord v tagNames = Inr (sr, None)"
    and "TypeOf v = Some t" and "struct_fields t = Some fs"
    and "tagsToName sr k = Some name"
  shows "\<exists>f \<in> set (visible fs). exposed (tag_of tagNames) f \<and> key_of (tag_of tagNames) f = k \<and>
           name = Name f"
proof -
  obtain x where v: "v = Iface t x"
    using assms(2) by (cases v) auto
  have "tagsToName sr = key_map (tag_of tagNames) (visible fs) Map.empty"
    using assms(1) by (auto simp: v NewStructRecord_struct [OF assms(3)])
  then show ?thesis
    using key_map_SomeD assms(4) by metis
qed

lemma GetKeys_built:
  assumes "NewStructRecord v tagNames = Inr (sr, None)"
    and "TypeOf v = Some t" and "struct_fields t = Some fs"
  shows "GetKeys sr = map (key_of (tag_of tagNames)) (filter (exposed (tag_of tagNames)) (visible fs))"
    and "dom (tagsToName sr) = key_of (tag_of tagNames) ` set (filter (exposed (tag_of tagNames)) (visible fs))"
proof -
  obtain x where v: "v = Iface t x"
    using assms(2) by (cases v) auto
  have sr: "sr = \<lparr>tagName = tag_of tagNames, record_of = v,
         tags = map (key_of (tag_of tagNames)) (filter (exposed (tag_of tagNames)) (visible fs)),
         tagsToName = key_map (tag_of tagNames) (visible fs) Map.empty\<rparr>"
    using assms(1) by (auto simp: v NewStructRecord_struct [OF assms(3)])
  show "GetKeys sr = map (key_of (tag_of tagNames)) (filter (exposed (tag_of tagNames)) (visible fs))"
    by (simp add: sr GetKeys_def)
  show "dom (tagsToName sr) = key_of (tag_of tagNames) ` set (filter (exposed (tag_of tagNames)) (visible fs))"
    by (simp add: sr dom_key_map)
qed

text \<open>
  C7: with a non-empty tag name, a field whose tag value, cut at the first comma, is
  empty (also because the field has no tag of that name) or \<^verbatim>\<open>-\<close> contributes nothing:
  \<^verbatim>\<open>extract\<close> returns no key and leaves the map as it is; neither the empty string nor
  \<^verbatim>\<open>-\<close> is a key of the sequence or of the map, and the name of the field is no value
  of the map.
\<close>

theorem blank_tag_excluded:
  assumes "NewStructRecord v tagNames = Inr (sr, None)"
    and "tag_of tagNames \<noteq> []"
    and "TypeOf v = Some t" and "struct_fields t = Some fs"
    and "f \<in> set (visible fs)"
    and "hd (strings_Split (StructTag_Get (Tag f) (tag_of tagNames)) CHR '','') \<in> {[], ''-''}"
  shows "extract_key f (tag_of tagNames) m = ([], m) \<and>
         [] \<notin> set (GetKeys sr) \<and> ''-'' \<notin> set (GetKeys sr) \<and>
         tagsToName sr [] = None \<and> tagsToName sr ''-'' = None \<and>
         Name f \<notin> ran (tagsToName sr)"
proof -
  let ?tag = "tag_of tagNames"
  have k: "key_of ?tag f = [] \<or> key_of ?tag f = ''-''"
    using assms(2,6) by (simp add: key_of_def hd_strings_Split)
  have 1: "extract_key f ?tag m = ([], m)"
    using assms(2) k by (simp add: extract_key_eq)
  have keys: "key_of ?tag g \<noteq> [] \<and> key_of ?tag g \<noteq> ''-''" if "exposed ?tag g" for g
    using that assms(2) by (simp add: exposed_def)
  have inkeys: "key \<noteq> [] \<and> key \<noteq> ''-''" if key: "key \<in> set (GetKeys sr)" for key
  proof -
    obtain g where "exposed ?tag g" "key = key_of ?tag g"
      using key unfolding GetKeys_built(1) [OF assms(1,3,4)] by auto
    then show ?thesis
      using keys by simp
  qed
  have indom: "key \<noteq> [] \<and> key \<noteq> ''-''" if key: "key \<in> dom (tagsToName sr)" for key
  proof -
    obtain g where "exposed ?tag g" "key = key_of ?tag g"
      using key unfolding GetKeys_built(2) [OF assms(1,3,4)] by auto
    then show ?thesis
      using keys by simp
  qed
  have 2: "[] \<notin> set (GetKeys sr) \<and> ''-'' \<notin> set (GetKeys sr)"
    using inkeys by blast
  have "[] \<notin> dom (tagsToName sr) \<and> ''-'' \<notin> dom (tagsToName sr)"
    using indom by blast
  then have 3: "tagsToName sr [] = None \<and> tagsToName sr ''-'' = None"
    by auto
  have 4: "Name f \<notin> ran (tagsToName sr)"
  proof
    assume "Name f \<in> ran (tagsToName sr)"
    then obtain key where "tagsToName sr key = Some (Name f)"
      by (auto simp: ran_def)
    then obtain g where g: "g \<in> set (visible fs)" "exposed ?tag g" "Name f = Name g"
      using tagsToName_SomeD [OF assms(1,3,4)] by blast
    then have "f = g"
      using distinct_Name_eq [OF assms(5)] by blast
    then show False
      using keys [OF g(2)] k by simp
  qed
  show ?thesis
    using 1 2 3 4 by simp
qed

theorem blank_tag_excluded_witness:
  "NewStructRecord account_value [''db''] = Inr (account_db, None) \<and>
   tag_of [''db''] \<noteq> [] \<and> password_field \<in> set (visible account_fields) \<and>
   hd (strings_Split (StructTag_Get (Tag password_field) (tag_of [''db''])) CHR '','') = ''-'' \<and>
   extract_key password_field (tag_of [''db'']) Map.empty = ([], Map.empty) \<and>
   GetKeys account_db = [''id''] \<and> tagsToName account_db ''-'' = None \<and>
   ''Password'' \<notin> ran (tagsToName account_db)"
proof -
  have h2: "tag_of [''db''] \<noteq> []" by (simp add: tag_of_def)
  have h3: "TypeOf account_value = Some (TStruct account_fields)"
    by (simp add: account_value_def)
  have h4: "struct_fields (TStruct account_fields) = Some account_fields" by simp
  have h5: "password_field \<in> set (visible account_fields)"
    by (simp add: visible_account)
  have eq: "hd (strings_Split (StructTag_Get (Tag password_field) (tag_of [''db''])) CHR '','') = ''-''"
    by (simp add: password_field_def StructTag_Get_def tag_of_def)
  then have h6: "hd (strings_Split (StructTag_Get (Tag password_field) (tag_of [''db''])) CHR '','')
      \<in> {[], ''-''}"
    by simp
  have name: "Name password_field = ''Password''"
    by (simp add: password_field_def)
  have keys: "GetKeys account_db = [''id'']"
    by (simp add: GetKeys_def account_db_def)
  show ?thesis
    using blank_tag_excluded [OF NewStructRecord_account h2 h3 h4 h5 h6, of Map.empty]
      NewStructRecord_account h2 h5 eq name keys
    by simp
qed

section \<open>Which fields the factory enumerates, and in which order\<close>

lemma visible_employee:
  "visible employee_fields =
     [address_field, city_field,
      \<lparr>Name = ''Name'', PkgPath = [], Typ = TString, Tag = [], Index = [1], Anonymous = False\<rparr>]"
  by (simp add: employee_fields_def address_fields_def address_field_def city_field_def walk_eval)

lemma NewStructRecord_employee: "NewStructRecord employee_value [] = Inr (employee_record, None)"
  by (simp add: employee_value_def employee_record_def NewStructRecord_struct visible_employee
      address_field_def city_field_def tag_of_def key_map_def exposed_def key_of_def
      IsExported_def)

lemma tags_employee_record: "tags employee_record = [''City'', ''Name'']"
  by (simp add: employee_record_def)

lemma Get_employee_City:
  "Get Map.empty employee_record ''City'' = Inr (Iface TString (StringV ''Oslo''), True)"
  by (simp add: employee_record_def employee_value_def Get_eval visible_employee
      address_field_def city_field_def)
     (simp add: employee_fields_def address_fields_def embedded_step_def)

lemma visits_top:
  "(index @ [i], f0) \<in> set (visits index j ds) \<Longrightarrow>
     j \<le> i \<and> i - j < length ds \<and> f0 = Type_Field (ds ! (i - j)) i"
proof (induction index j ds rule: visits_induct)
  case (Nil index j)
  then show ?case by simp
next
  case (Cons index j d ds)
  from Cons.prems consider "i = j" "f0 = Type_Field d j"
    | gs where "embedded_struct d = Some gs" "(index @ [i], f0) \<in> set (visits (index @ [j]) 0 gs)"
    | "(index @ [i], f0) \<in> set (visits index (Suc j) ds)"
    by (cases "embedded_struct d") (auto simp: visits_Cons)
  then show ?case
  proof cases
    case 1
    then show ?thesis by simp
  next
    case 2
    then obtain j' r where "index @ [i] = (index @ [j]) @ j' # r"
      using visits_index_shape by blast
    then show ?thesis by simp
  next
    case 3
    then have ih: "Suc j \<le> i \<and> i - Suc j < length ds \<and> f0 = Type_Field (ds ! (i - Suc j)) i"
      by (rule Cons.IH(2))
    then have "Suc j \<le> i"
      by blast
    then have sub: "i - j = Suc (i - Suc j)"
      by arith
    show ?thesis
      using ih by (simp add: sub)
  qed
qed

lemma visible_top:
  assumes "f \<in> set (visible fs)" and "Index f = [i]"
  shows "i < length fs \<and> f = Type_Field (fs ! i) i"
proof -
  obtain f0 where f0: "(Index f, f0) \<in> set (visits [] 0 fs)" "f = f0\<lparr>Index := Index f\<rparr>"
    using visible_in_visits [OF assms(1)] by blast
  have "([] @ [i], f0) \<in> set (visits [] 0 fs)"
    using f0(1) assms(2) by simp
  then have "i < length fs \<and> f0 = Type_Field (fs ! i) i"
    using visits_top [of "[]" i f0 0 fs] by simp
  then show ?thesis
    using f0(2) assms(2) by (simp add: Type_Field_def)
qed

lemma walk_steps_fresh:
  assumes "distinct (map (\<lambda>v. Name (snd v)) vs)"
    and "\<forall>v \<in> set vs. byName w (Name (snd v)) = None"
  shows "wfields (walk_steps vs w) = wfields w @ map entry vs"
  using assms
proof (induction vs arbitrary: w)
  case Nil
  show ?case by simp
next
  case (Cons v vs)
  obtain idx f where v: "v = (idx, f)" by (cases v)
  let ?w = "walk_visit idx f w"
  have none: "byName w (Name f) = None"
    using Cons.prems(2) v by simp
  then have w: "wfields ?w = wfields w @ [entry (idx, f)]"
      "byName ?w = (byName w)(Name f \<mapsto> length (wfields w))"
    by (simp_all add: walk_visit_def entry_def)
  have "\<forall>u \<in> set vs. byName ?w (Name (snd u)) = None"
    using Cons.prems v by (force simp: w(2))
  moreover have "distinct (map (\<lambda>v. Name (snd v)) vs)"
    using Cons.prems(1) by simp
  ultimately have "wfields (walk_steps vs ?w) = wfields ?w @ map entry vs"
    by (rule Cons.IH [rotated])
  then show ?case
    by (simp add: v w(1))
qed

lemma visible_no_clash:
  assumes "distinct (map Name (preorder fs))"
  shows "visible fs = filter (\<lambda>f. Name f \<noteq> []) (preorder fs)"
proof -
  have "map Name (preorder fs) = map (\<lambda>v. Name (snd v)) (visits [] 0 fs)"
    by (simp add: preorder_def entry_def)
  then have "distinct (map (\<lambda>v. Name (snd v)) (visits [] 0 fs))"
    using assms by simp
  then have "wfields (walk_steps (visits [] 0 fs) \<lparr>byName = Map.empty, wfields = []\<rparr>) =
               wfields \<lparr>byName = Map.empty, wfields = []\<rparr> @ map entry (visits [] 0 fs)"
    by (rule walk_steps_fresh) simp
  then show ?thesis
    by (simp add: visible_walk_steps preorder_def)
qed

lemma GetVals_loop_SomeD:
  assumes "GetVals_loop st sr keys acc = Inr (Some vals)"
  shows "\<exists>ws. vals = acc @ ws \<and> list_all2 (\<lambda>k w. Get st sr k = Inr (w, True)) keys ws"
  using assms
proof (induction keys arbitrary: acc)
  case Nil
  then show ?case by simp
next
  case (Cons k keys)
  then obtain i where i: "Get st sr k = Inr (i, True)"
      "GetVals_loop st sr keys (acc @ [i]) = Inr (Some vals)"
    by (auto split: sum.splits if_splits)
  then obtain ws where "vals = (acc @ [i]) @ ws"
      "list_all2 (\<lambda>k w. Get st sr k = Inr (w, True)) keys ws"
    using Cons.IH by blast
  then have "vals = acc @ i # ws \<and>
      list_all2 (\<lambda>k w. Get st sr k = Inr (w, True)) (k # keys) (i # ws)"
    using i(1) by simp
  then show ?case
    by blast
qed

text \<open>
  C4: the keys of an adapter are the keys of the exposed visible fields, taken in the
  order of their indices: the order of declaration, in which the fields that an embedded
  struct promotes stand at the place of that struct. A field with a one-element index
  \<open>[i]\<close> is the \<open>i\<close>-th declared field of the struct. \<^verbatim>\<open>GetVals\<close> follows the same
  sequence: what it returns is, key by key, what \<^verbatim>\<open>Get\<close> returns.
\<close>

theorem keys_in_declaration_order:
  assumes "NewStructRecord v tagNames = Inr (sr, None)"
    and "TypeOf v = Some t" and "struct_fields t = Some fs"
  shows "GetKeys sr =
           map (key_of (tag_of tagNames)) (filter (exposed (tag_of tagNames)) (visible fs)) \<and>
         sorted_wrt (<) (map Index (filter (exposed (tag_of tagNames)) (visible fs))) \<and>
         (\<forall>f \<in> set (visible fs). \<forall>i. Index f = [i] \<longrightarrow> i < length fs \<and> f = Type_Field (fs ! i) i) \<and>
         (\<forall>vals. GetVals st sr = Inr (Some vals) \<longrightarrow>
            list_all2 (\<lambda>k w. Get st sr k = Inr (w, True)) (GetKeys sr) vals)"
proof -
  have 1: "GetKeys sr =
           map (key_of (tag_of tagNames)) (filter (exposed (tag_of tagNames)) (visible fs))"
    using assms by (rule GetKeys_built(1))
  have "subseq (map Index (filter (exposed (tag_of tagNames)) (visible fs))) (map Index (visible fs))"
    by (rule subseq_map) simp
  then have 2: "sorted_wrt (<) (map Index (filter (exposed (tag_of tagNames)) (visible fs)))"
    using sorted_Index_visible by (rule subseq_sorted_wrt)
  have 3: "\<forall>f \<in> set (visible fs). \<forall>i. Index f = [i] \<longrightarrow> i < length fs \<and> f = Type_Field (fs ! i) i"
    using visible_top by blast
  have 4: "list_all2 (\<lambda>k w. Get st sr k = Inr (w, True)) (GetKeys sr) vals"
    if "GetVals st sr = Inr (Some vals)" for vals
    using GetVals_loop_SomeD [of st sr "tags sr" "[]" vals] that
    by (simp add: GetVals_def GetKeys_def)
  show ?thesis
    using 1 2 3 4 by blast
qed

theorem keys_in_declaration_order_witness:
  "NewStructRecord alice_value [''db''] = Inr (alice_db, None) \<and>
   TypeOf alice_value = Some (TStruct person_fields) \<and>
   struct_fields (TStruct person_fields) = Some person_fields \<and>
   GetKeys alice_db = [''id'', ''name''] \<and>
   map Index (filter (exposed (tag_of [''db''])) (visible person_fields)) = [[0], [1]] \<and>
   map dName person_fields = [''ID'', ''Name'', ''secret''] \<and>
   GetVals Map.empty alice_db = Inr (Some [Iface TInt (IntV 1), Iface TString (StringV ''alice'')])"
proof -
  have h2: "TypeOf alice_value = Some (TStruct person_fields)"
    by (simp add: alice_value_def)
  have h3: "struct_fields (TStruct person_fields) = Some person_fields"
    by simp
  have idx: "map Index (filter (exposed (tag_of [''db''])) (visible person_fields)) = [[0], [1]]"
    by (simp add: visible_person tag_of_def exposed_def key_of_def IsExported_def
        StructTag_Get_def)
  have names: "map dName person_fields = [''ID'', ''Name'', ''secret'']"
    by (simp add: person_fields_def)
  have keys: "GetKeys alice_db = [''id'', ''name'']"
    by (simp add: GetKeys_def tags_alice_db)
  show ?thesis
    using keys_in_declaration_order [OF NewStructRecord_alice_value h2 h3, of Map.empty]
      NewStructRecord_alice_value h2 h3 idx names keys GetVals_alice_db
    by simp
qed

text \<open>
  C2 as the code has it: the fields behind the keys and the map are the exported fields,
  not embedded themselves, among the visible fields. The visible fields are taken from
  \<open>preorder\<close>, which holds the fields of the struct and, after each embedded struct, the
  fields of that struct, at any depth; when no two of these fields have the same name,
  all of them are visible. An embedded field or an unexported one never names a value of
  the map.
\<close>

theorem exposed_fields_of_visible_fields:
  assumes "NewStructRecord v tagNames = Inr (sr, None)"
    and "TypeOf v = Some t" and "struct_fields t = Some fs"
  shows "(\<forall>name \<in> ran (tagsToName sr).
            \<exists>f \<in> set (visible fs). Name f = name \<and> IsExported f \<and> \<not> Anonymous f) \<and>
         (\<forall>f \<in> set (visible fs). Anonymous f \<or> \<not> IsExported f \<longrightarrow> Name f \<notin> ran (tagsToName sr)) \<and>
         (\<forall>f \<in> set (visible fs). exposed (tag_of tagNames) f \<longrightarrow>
            key_of (tag_of tagNames) f \<in> set (GetKeys sr) \<and>
            key_of (tag_of tagNames) f \<in> dom (tagsToName sr)) \<and>
         (tag_of tagNames = [] \<longrightarrow>
            GetKeys sr = map Name (filter (\<lambda>f. IsExported f \<and> \<not> Anonymous f) (visible fs))) \<and>
         subseq (visible fs) (preorder fs) \<and>
         (distinct (map Name (preorder fs)) \<longrightarrow>
            visible fs = filter (\<lambda>f. Name f \<noteq> []) (preorder fs))"
proof -
  let ?tag = "tag_of tagNames"
  have ran: "\<exists>f \<in> set (visible fs). Name f = name \<and> exposed ?tag f"
    if name: "name \<in> ran (tagsToName sr)" for name
  proof -
    obtain key where "tagsToName sr key = Some name"
      using name by (auto simp: ran_def)
    then show ?thesis
      using tagsToName_SomeD [OF assms] by blast
  qed
  have 1: "\<forall>name \<in> ran (tagsToName sr).
            \<exists>f \<in> set (visible fs). Name f = name \<and> IsExported f \<and> \<not> Anonymous f"
    using ran by (fastforce simp: exposed_def)
  have 2: "\<forall>f \<in> set (visible fs). Anonymous f \<or> \<not> IsExported f \<longrightarrow> Name f \<notin> ran (tagsToName sr)"
  proof (intro ballI impI notI)
    fix f
    assume f: "f \<in> set (visible fs)" "Anonymous f \<or> \<not> IsExported f" "Name f \<in> ran (tagsToName sr)"
    obtain g where g: "g \<in> set (visible fs)" "Name g = Name f" "exposed ?tag g"
      using ran [OF f(3)] by blast
    have "f = g"
      using distinct_Name_eq [OF f(1) g(1)] g(2) by simp
    then show False
      using f(2) g(3) by (simp add: exposed_def)
  qed
  have 3: "\<forall>f \<in> set (visible fs). exposed ?tag f \<longrightarrow>
            key_of ?tag f \<in> set (GetKeys sr) \<and> key_of ?tag f \<in> dom (tagsToName sr)"
    unfolding GetKeys_built [OF assms] by auto
  have 4: "?tag = [] \<longrightarrow>
            GetKeys sr = map Name (filter (\<lambda>f. IsExported f \<and> \<not> Anonymous f) (visible fs))"
  proof
    assume tag: "?tag = []"
    have "exposed [] = (\<lambda>f. IsExported f \<and> \<not> Anonymous f)" "key_of [] = Name"
      by (auto simp: exposed_def key_of_def)
    then show "GetKeys sr = map Name (filter (\<lambda>f. IsExported f \<and> \<not> Anonymous f) (visible fs))"
      using GetKeys_built(1) [OF assms] tag by simp
  qed
  show ?thesis
    using 1 2 3 4 subseq_visible_preorder visible_no_clash by blast
qed

theorem exposed_fields_of_visible_fields_witness:
  "NewStructRecord employee_value [] = Inr (employee_record, None) \<and>
   TypeOf employee_value = Some (TStruct employee_fields) \<and>
   struct_fields (TStruct employee_fields) = Some employee_fields \<and>
   address_field \<in> set (visible employee_fields) \<and> Anonymous address_field \<and>
   Name address_field \<notin> ran (tagsToName employee_record) \<and>
   city_field \<in> set (visible employee_fields) \<and> exposed (tag_of []) city_field \<and>
   key_of (tag_of []) city_field \<in> set (GetKeys employee_record) \<and>
   tag_of [] = [] \<and> GetKeys employee_record = [''City'', ''Name'']"
proof -
  have h2: "TypeOf employee_value = Some (TStruct employee_fields)"
    by (simp add: employee_value_def)
  have h3: "struct_fields (TStruct employee_fields) = Some employee_fields"
    by simp
  have a: "address_field \<in> set (visible employee_fields)" "Anonymous address_field"
    by (simp_all add: visible_employee address_field_def)
  have c: "city_field \<in> set (visible employee_fields)" "exposed (tag_of []) city_field"
    by (simp_all add: visible_employee city_field_def exposed_def tag_of_def IsExported_def)
  have t: "tag_of [] = []"
    by (simp add: tag_of_def)
  have keys: "GetKeys employee_record = [''City'', ''Name'']"
    by (simp add: GetKeys_def tags_employee_record)
  note th = exposed_fields_of_visible_fields [OF NewStructRecord_employee h2 h3]
  have n: "Name address_field \<notin> ran (tagsToName employee_record)"
    using th a by blast
  have k: "key_of (tag_of []) city_field \<in> set (GetKeys employee_record)"
    using th c by blast
  show ?thesis
    using NewStructRecord_employee h2 h3 a c t keys n k by blast
qed

text \<open>
  C2 as it is stated does not hold: \<^verbatim>\<open>City\<close> is declared in the embedded struct
  \<^verbatim>\<open>Address\<close>, not at the top level of the struct handed to the factory, and it is a
  key of the adapter, in the sequence and in the map, and \<^verbatim>\<open>Get\<close> reads it.
\<close>

theorem promoted_field_is_key:
  "NewStructRecord employee_value [] = Inr (employee_record, None) \<and>
   map dName employee_fields = [''Address'', ''Name''] \<and>
   GetKeys employee_record = [''City'', ''Name''] \<and>
   tagsToName employee_record ''City'' = Some ''City'' \<and>
   Get Map.empty employee_record ''City'' = Inr (Iface TString (StringV ''Oslo''), True)"
  by (simp add: NewStructRecord_employee Get_employee_City GetKeys_def tags_employee_record)
     (simp add: employee_fields_def employee_record_def)

section \<open>Reading after an assignment\<close>

text \<open>
  Where \<open>field_value\<close> finds the value of a field that the walker meets,
  \<^verbatim>\<open>FieldByIndex\<close> returns that value, with the read-only flags that the field alone
  decides; nothing is asked of the other fields.
\<close>

lemma struct_at_struct [simp]: "struct_at st (TStruct fs) (StructV vs) = Some (fs, vs)"
  by (simp add: struct_at_def)

lemma struct_at_SomeD:
  assumes "struct_at st t x = Some (fs, vs)"
  shows "(t = TStruct fs \<and> x = StructV vs) \<or>
         (\<exists>a. t = TPtr (TStruct fs) \<and> x = PtrV (Some a) \<and> st a = Some (StructV vs))"
  using assms
  by (auto simp: struct_at_def split: gtype.splits val.splits option.splits)

lemma field_value_ConsD:
  assumes "field_value st t x (i # idx) = Some y"
  shows "\<exists>fs vs. struct_at st t x = Some (fs, vs) \<and> i < length fs \<and> i < length vs \<and>
           field_value st (dType (fs ! i)) (vs ! i) idx = Some y"
  using assms by (auto split: option.splits if_splits)

lemma embedded_step_struct_at:
  assumes "embedded_struct d = Some gs" and "struct_at st (dType d) v = Some (gs', ws)"
  shows "gs' = gs \<and> embedded_step st (Val (dType d) v s e) = Inr (Val (TStruct gs) (StructV ws) s e)"
proof -
  obtain n p t tg a where d: "d = FDecl n p t tg a" by (cases d)
  have t: "t = TStruct gs \<or> t = TPtr (TStruct gs)"
    using assms(1) by (auto simp: d split: if_splits gtype.splits)
  from struct_at_SomeD [OF assms(2)] t show ?thesis
    by (auto simp: d embedded_step_def)
qed

lemma loop_field_value:
  assumes "(idx, f) \<in> set (visits index i ds)"
    and "ds = drop i fs"
  shows "\<exists>rest. idx = index @ rest \<and> rest \<noteq> [] \<and>
           (\<forall>y. field_value st (TStruct fs) (StructV vs) rest = Some y \<longrightarrow>
              FieldByIndex_loop st (Val (TStruct fs) (StructV vs) s e) True rest =
                Inr (Val (Typ f) y (s \<or> (PkgPath f \<noteq> [] \<and> \<not> Anonymous f))
                       (PkgPath f \<noteq> [] \<and> Anonymous f)))"
  using assms
proof (induction index i ds arbitrary: fs vs s e rule: visits_induct)
  case (Nil index i)
  then show ?case by simp
next
  case (Cons index i d ds)
  have i: "i < length fs" and d: "d = fs ! i" and ds: "ds = drop (Suc i) fs"
    using Cons_eq_dropD [OF Cons.prems(2)] by simp_all
  let ?v2 = "Val (dType d) (vs ! i) (s \<or> (dPkgPath d \<noteq> [] \<and> \<not> dEmbedded d))
               (dPkgPath d \<noteq> [] \<and> dEmbedded d)"
  have field: "Value_Field (Val (TStruct fs) (StructV vs) s e) i = Inr ?v2" if "i < length vs"
    using i that d by simp
  from Cons.prems(1) consider "idx = index @ [i]" "f = Type_Field d i"
    | gs where "embedded_struct d = Some gs" "(idx, f) \<in> set (visits (index @ [i]) 0 gs)"
    | "(idx, f) \<in> set (visits index (Suc i) ds)"
    by (cases "embedded_struct d") (auto simp: visits_Cons)
  then show ?case
  proof cases
    case 1
    have "FieldByIndex_loop st (Val (TStruct fs) (StructV vs) s e) True [i] =
            Inr (Val (Typ f) y (s \<or> (PkgPath f \<noteq> [] \<and> \<not> Anonymous f))
                   (PkgPath f \<noteq> [] \<and> Anonymous f))"
      if "field_value st (TStruct fs) (StructV vs) [i] = Some y" for y
    proof -
      have "i < length vs" "y = vs ! i"
        using that by (auto split: if_splits)
      then show ?thesis
        using field 1(2) by (simp add: Type_Field_def)
    qed
    then show ?thesis
      using 1(1) by blast
  next
    case 2
    have emb: "dEmbedded d"
      using 2(1) by (rule embedded_struct_dEmbedded)
    obtain rest where r: "idx = (index @ [i]) @ rest" "rest \<noteq> []"
        "\<And>ws s e y. field_value st (TStruct gs) (StructV ws) rest = Some y \<Longrightarrow>
           FieldByIndex_loop st (Val (TStruct gs) (StructV ws) s e) True rest =
             Inr (Val (Typ f) y (s \<or> (PkgPath f \<noteq> [] \<and> \<not> Anonymous f))
                    (PkgPath f \<noteq> [] \<and> Anonymous f))"
    proof -
      have "\<exists>rest. idx = (index @ [i]) @ rest \<and> rest \<noteq> [] \<and>
           (\<forall>y. field_value st (TStruct gs) (StructV ws) rest = Some y \<longrightarrow>
              FieldByIndex_loop st (Val (TStruct gs) (StructV ws) s e) True rest =
                Inr (Val (Typ f) y (s \<or> (PkgPath f \<noteq> [] \<and> \<not> Anonymous f))
                       (PkgPath f \<noteq> [] \<and> Anonymous f)))" for ws s e
        using Cons.IH(1) [OF 2(1) 2(2), of gs ws s e] by simp
      then show ?thesis
        using that by (metis same_append_eq)
    qed
    have "FieldByIndex_loop st (Val (TStruct fs) (StructV vs) s e) True (i # rest) =
           Inr (Val (Typ f) y (s \<or> (PkgPath f \<noteq> [] \<and> \<not> Anonymous f))
                  (PkgPath f \<noteq> [] \<and> Anonymous f))"
      if y: "field_value st (TStruct fs) (StructV vs) (i # rest) = Some y" for y
    proof -
      obtain gs' ws where g: "i < length vs" "struct_at st (dType d) (vs ! i) = Some (gs', ws)"
          "field_value st (dType d) (vs ! i) rest = Some y"
      proof -
        have iv: "i < length vs" and fv: "field_value st (dType d) (vs ! i) rest = Some y"
          using y d by (auto split: if_splits)
        obtain j rest' where "rest = j # rest'"
          using r(2) by (cases rest) auto
        then obtain gs' ws where "struct_at st (dType d) (vs ! i) = Some (gs', ws)"
          using field_value_ConsD fv by blast
        then show ?thesis
          using that iv fv by blast
      qed
      have step: "gs' = gs"
          "embedded_step st ?v2 = Inr (Val (TStruct gs) (StructV ws)
              (s \<or> (dPkgPath d \<noteq> [] \<and> \<not> dEmbedded d)) (dPkgPath d \<noteq> [] \<and> dEmbedded d))"
        using embedded_step_struct_at [OF 2(1) g(2)] by simp_all
      obtain j rest' where rest: "rest = j # rest'"
        using r(2) by (cases rest) auto
      have "field_value st (TStruct gs) (StructV ws) rest = field_value st (dType d) (vs ! i) rest"
        using g(2) step(1) by (simp add: rest)
      then have inner: "field_value st (TStruct gs) (StructV ws) rest = Some y"
        using g(3) by simp
      have "FieldByIndex_loop st (Val (TStruct fs) (StructV vs) s e) True (i # rest) =
              FieldByIndex_loop st ?v2 False rest"
        using field [OF g(1)] by simp
      also have "\<dots> = FieldByIndex_loop st (Val (TStruct gs) (StructV ws)
              (s \<or> (dPkgPath d \<noteq> [] \<and> \<not> dEmbedded d)) (dPkgPath d \<noteq> [] \<and> dEmbedded d)) True rest"
        using FieldByIndex_loop_step [OF r(2) step(2)] by simp
      also have "\<dots> = Inr (Val (Typ f) y (s \<or> (PkgPath f \<noteq> [] \<and> \<not> Anonymous f))
                  (PkgPath f \<noteq> [] \<and> Anonymous f))"
        using r(3) [OF inner] emb by simp
      finally show ?thesis .
    qed
    moreover have "idx = index @ i # rest"
      using r(1) by simp
    ultimately show ?thesis
      by blast
  next
    case 3
    show ?thesis
      using Cons.IH(2) [OF 3 ds] by blast
  qed
qed

lemma Indirect_struct_at:
  assumes "struct_fields t = Some fs" and "struct_at st t x = Some (gs, vs)"
  shows "gs = fs \<and> Indirect st (ValueOf (Iface t x)) = Inr (Val (TStruct fs) (StructV vs) False False)"
proof -
  from assms(1) consider "t = TStruct fs" | "t = TPtr (TStruct fs)"
    by (auto simp: struct_fields_Some)
  then show ?thesis
    using struct_at_SomeD [OF assms(2)] by cases (auto simp: Indirect_def)
qed

lemma field_value_visible:
  assumes "f \<in> set (visible fs)" and "struct_fields t = Some fs" and "IsExported f"
    and "field_value st t x (Index f) = Some y"
  shows "\<exists>vs. Indirect st (ValueOf (Iface t x)) = Inr (Val (TStruct fs) (StructV vs) False False) \<and>
           Value_FieldByIndex st (Val (TStruct fs) (StructV vs) False False) (Index f) =
             Inr (Val (Typ f) y False False)"
proof -
  obtain f0 where f0: "(Index f, f0) \<in> set (visits [] 0 fs)" "f = f0\<lparr>Index := Index f\<rparr>"
    using visible_in_visits [OF assms(1)] by blast
  have same: "Typ f0 = Typ f" "PkgPath f0 = PkgPath f" "Anonymous f0 = Anonymous f"
    using f0(2) by (metis StructField.select_convs StructField.surjective StructField.update_convs(5))+
  obtain rest where r: "Index f = [] @ rest" "rest \<noteq> []"
      "\<And>vs y. field_value st (TStruct fs) (StructV vs) rest = Some y \<Longrightarrow>
         FieldByIndex_loop st (Val (TStruct fs) (StructV vs) False False) True rest =
           Inr (Val (Typ f0) y (False \<or> (PkgPath f0 \<noteq> [] \<and> \<not> Anonymous f0))
                  (PkgPath f0 \<noteq> [] \<and> Anonymous f0))"
  proof -
    have "\<exists>rest. Index f = [] @ rest \<and> rest \<noteq> [] \<and>
           (\<forall>y. field_value st (TStruct fs) (StructV vs) rest = Some y \<longrightarrow>
              FieldByIndex_loop st (Val (TStruct fs) (StructV vs) False False) True rest =
                Inr (Val (Typ f0) y (False \<or> (PkgPath f0 \<noteq> [] \<and> \<not> Anonymous f0))
                       (PkgPath f0 \<noteq> [] \<and> Anonymous f0)))" for vs
      using loop_field_value [OF f0(1), of fs st vs False False] by simp
    then show ?thesis
      using that by (metis append_Nil)
  qed
  obtain i idx where idx: "Index f = i # idx"
    using r(1,2) by (cases "Index f") auto
  obtain gs vs where g: "struct_at st t x = Some (gs, vs)"
    using field_value_ConsD assms(4) unfolding idx by blast
  have base: "gs = fs"
      "Indirect st (ValueOf (Iface t x)) = Inr (Val (TStruct fs) (StructV vs) False False)"
    using Indirect_struct_at [OF assms(2) g] by simp_all
  have "field_value st (TStruct fs) (StructV vs) (Index f) = field_value st t x (Index f)"
    using g base(1) by (simp add: idx)
  then have "field_value st (TStruct fs) (StructV vs) rest = Some y"
    using assms(4) r(1) by simp
  then have "FieldByIndex_loop st (Val (TStruct fs) (StructV vs) False False) True (Index f) =
               Inr (Val (Typ f) y False False)"
    using r(3) r(1) assms(3) same by (simp add: IsExported_def)
  then have "Value_FieldByIndex st (Val (TStruct fs) (StructV vs) False False) (Index f) =
               Inr (Val (Typ f) y False False)"
    using r(1,2) by (simp add: FieldByIndex_is_loop)
  then show ?thesis
    using base(2) by blast
qed

lemma key_of_field:
  assumes "NewStructRecord (Iface t x) tagNames = Inr (sr, None)"
    and "struct_fields t = Some fs"
    and "f \<in> set (visible fs)"
    and "tagsToName sr key = Some (Name f)"
  shows "exposed (tag_of tagNames) f \<and> key_of (tag_of tagNames) f = key"
proof -
  have "TypeOf (Iface t x) = Some t"
    by simp
  then obtain g where g: "g \<in> set (visible fs)" "exposed (tag_of tagNames) g"
      "key_of (tag_of tagNames) g = key" "Name f = Name g"
    using tagsToName_SomeD [OF assms(1) _ assms(2,4)] by blast
  have "f = g"
    using distinct_Name_eq [OF assms(3) g(1) g(4)] .
  then show ?thesis
    using g(2,3) by simp
qed

lemma Get_field_value:
  assumes "NewStructRecord (Iface t x) tagNames = Inr (sr, None)"
    and "struct_fields t = Some fs"
    and "f \<in> set (visible fs)"
    and "tagsToName sr key = Some (Name f)"
    and "field_value st t x (Index f) = Some y"
  shows "Get st sr key = Inr (Iface (Typ f) y, True)"
proof -
  have sr: "record_of sr = Iface t x"
    using assms(1) by (auto simp: NewStructRecord_struct [OF assms(2)])
  have ex: "IsExported f"
    using key_of_field [OF assms(1-4)] by (simp add: exposed_def)
  obtain vs where vs:
      "Indirect st (ValueOf (Iface t x)) = Inr (Val (TStruct fs) (StructV vs) False False)"
      "Value_FieldByIndex st (Val (TStruct fs) (StructV vs) False False) (Index f) =
         Inr (Val (Typ f) y False False)"
    using field_value_visible [OF assms(3,2) ex assms(5)] by blast
  have "Value_FieldByName st (Val (TStruct fs) (StructV vs) False False) (Name f) =
          Inr (Val (Typ f) y False False)"
    using vs(2) Type_FieldByName_visible [OF assms(3)] by (simp add: Value_FieldByName_def)
  then show ?thesis
    using assms(4) sr vs(1) by (simp add: Get_def)
qed

lemma visible_staff:
  "visible staff_fields =
     [\<lparr>Name = ''Address'', PkgPath = [], Typ = TPtr (TStruct address_fields), Tag = [],
       Index = [0], Anonymous = True\<rparr>,
      staff_city_field, staff_name_field]"
  by (simp add: staff_fields_def address_fields_def staff_city_field_def staff_name_field_def
      walk_eval)

lemma NewStructRecord_staff:
  assumes "struct_fields t = Some staff_fields"
  shows "NewStructRecord (Iface t x) [] = Inr (staff_record (Iface t x), None)"
  by (simp add: NewStructRecord_struct [OF assms] staff_record_def visible_staff
      staff_city_field_def staff_name_field_def tag_of_def key_map_def exposed_def key_of_def
      IsExported_def)

text \<open>
  C3, for an adapter built from a struct value or from a pointer to a struct, and a key
  under which the map of the adapter has the field \<open>f\<close>: the field is exposed and the
  key is its key. \<^verbatim>\<open>Get\<close> reads what the adapter holds in the store of the call:
  whenever the field is there, that is no embedded pointer on the way to it is nil,
  \<^verbatim>\<open>Get\<close> returns the value that the field has then. For an adapter built from a
  pointer that is not nil, the struct \<open>vs0\<close> that the store has at its address and
  the \<open>i\<close>-th field declared in the struct: before the assignment \<^verbatim>\<open>Get\<close> returns
  the old value of the field, and after \<open>w\<close> is assigned to the field it returns
  \<open>w\<close>, whatever the other fields of the struct hold. For an adapter built from a
  struct value \<open>vs\<close> and the \<open>i\<close>-th field declared in the struct, \<^verbatim>\<open>Get\<close> returns
  in every store the value that the factory was given.
\<close>

theorem Get_after_assignment:
  assumes "NewStructRecord (Iface t x) tagNames = Inr (sr, None)"
    and "struct_fields t = Some fs"
    and "f \<in> set (visible fs)"
    and "tagsToName sr key = Some (Name f)"
  shows "exposed (tag_of tagNames) f \<and> key_of (tag_of tagNames) f = key \<and>
         (\<forall>st y. field_value st t x (Index f) = Some y \<longrightarrow>
            Get st sr key = Inr (Iface (Typ f) y, True)) \<and>
         (\<forall>a st0 vs0 i w.
            t = TPtr (TStruct fs) \<and> x = PtrV (Some a) \<and> st0 a = Some (StructV vs0) \<and>
            Index f = [i] \<and> i < length vs0 \<longrightarrow>
              Get st0 sr key = Inr (Iface (Typ f) (vs0 ! i), True) \<and>
              Get (assign_field st0 a i w) sr key = Inr (Iface (Typ f) w, True)) \<and>
         (\<forall>vs i st.
            t = TStruct fs \<and> x = StructV vs \<and> Index f = [i] \<and> i < length vs \<longrightarrow>
              Get st sr key = Inr (Iface (Typ f) (vs ! i), True))"
proof -
  note get = Get_field_value [OF assms]
  have 1: "exposed (tag_of tagNames) f \<and> key_of (tag_of tagNames) f = key"
    using assms by (rule key_of_field)
  have 2: "\<forall>st y. field_value st t x (Index f) = Some y \<longrightarrow>
            Get st sr key = Inr (Iface (Typ f) y, True)"
    using get by blast
  have top: "i < length fs" if "Index f = [i]" for i
    using visible_top [OF assms(3) that] by simp
  have 3: "Get st0 sr key = Inr (Iface (Typ f) (vs0 ! i), True) \<and>
           Get (assign_field st0 a i w) sr key = Inr (Iface (Typ f) w, True)"
    if "t = TPtr (TStruct fs)" "x = PtrV (Some a)" "st0 a = Some (StructV vs0)"
      "Index f = [i]" "i < length vs0" for a st0 vs0 i w
  proof -
    have "field_value st0 t x (Index f) = Some (vs0 ! i)"
      and "field_value (assign_field st0 a i w) t x (Index f) = Some w"
      using that top by (simp_all add: struct_at_def assign_field_def)
    then show ?thesis
      using get by blast
  qed
  have 4: "Get st sr key = Inr (Iface (Typ f) (vs ! i), True)"
    if "t = TStruct fs" "x = StructV vs" "Index f = [i]" "i < length vs" for vs i st
    using get [of st "vs ! i"] top [OF that(3)] that by simp
  show ?thesis
    using 1 2 3 4 by blast
qed

theorem Get_after_assignment_witness:
  "NewStructRecord staff_pointer [] = Inr (staff_record staff_pointer, None) \<and>
   staff_name_field \<in> set (visible staff_fields) \<and>
   tagsToName (staff_record staff_pointer) ''Name'' = Some (Name staff_name_field) \<and>
   staff_store 0 = Some (StructV [PtrV None, StringV ''bob'']) \<and>
   Get staff_store (staff_record staff_pointer) ''Name'' =
     Inr (Iface TString (StringV ''bob''), True) \<and>
   Get (assign_field staff_store 0 1 (StringV ''rob'')) (staff_record staff_pointer) ''Name'' =
     Inr (Iface TString (StringV ''rob''), True) \<and>
   NewStructRecord staff_value [] = Inr (staff_record staff_value, None) \<and>
   staff_city_field \<in> set (visible staff_fields) \<and>
   tagsToName (staff_record staff_value) ''City'' = Some (Name staff_city_field) \<and>
   Get address_store (staff_record staff_value) ''City'' =
     Inr (Iface TString (StringV ''Oslo''), True) \<and>
   Get (assign_field address_store 1 0 (StringV ''Bergen'')) (staff_record staff_value) ''City'' =
     Inr (Iface TString (StringV ''Bergen''), True) \<and>
   Get (assign_field address_store 1 0 (StringV ''Bergen'')) (staff_record staff_value) ''Name'' =
     Inr (Iface TString (StringV ''bob''), True)"
proof -
  have p1: "NewStructRecord (Iface (TPtr (TStruct staff_fields)) (PtrV (Some 0))) [] =
              Inr (staff_record staff_pointer, None)"
    unfolding staff_pointer_def by (rule NewStructRecord_staff) simp
  have p2: "struct_fields (TPtr (TStruct staff_fields)) = Some staff_fields"
    by simp
  have name: "staff_name_field \<in> set (visible staff_fields)"
    and city: "staff_city_field \<in> set (visible staff_fields)"
    by (simp_all add: visible_staff)
  have p4: "tagsToName (staff_record staff_pointer) ''Name'' = Some (Name staff_name_field)"
    by (simp add: staff_record_def staff_name_field_def)
  have st: "staff_store 0 = Some (StructV [PtrV None, StringV ''bob''])"
    by (simp add: staff_store_def)
  have idx: "Index staff_name_field = [1]" "Typ staff_name_field = TString"
    "Index staff_city_field = [0, 0]" "Typ staff_city_field = TString"
    by (simp_all add: staff_name_field_def staff_city_field_def)
  note pointer = Get_after_assignment [OF p1 p2 name p4]
  have a: "Get staff_store (staff_record staff_pointer) ''Name'' =
             Inr (Iface TString (StringV ''bob''), True) \<and>
           Get (assign_field staff_store 0 1 (StringV ''rob'')) (staff_record staff_pointer) ''Name'' =
             Inr (Iface TString (StringV ''rob''), True)"
    using pointer st idx(1,2) by fastforce
  have v1: "NewStructRecord (Iface (TStruct staff_fields) (StructV [PtrV (Some 1), StringV ''bob''])) [] =
              Inr (staff_record staff_value, None)"
    unfolding staff_value_def by (rule NewStructRecord_staff) simp
  have v2: "struct_fields (TStruct staff_fields) = Some staff_fields"
    by simp
  have v4: "tagsToName (staff_record staff_value) ''City'' = Some (Name staff_city_field)"
    and v5: "tagsToName (staff_record staff_value) ''Name'' = Some (Name staff_name_field)"
    by (simp_all add: staff_record_def staff_city_field_def staff_name_field_def)
  have oslo: "field_value address_store (TStruct staff_fields)
                (StructV [PtrV (Some 1), StringV ''bob'']) [0, 0] = Some (StringV ''Oslo'')"
    and bergen: "field_value (assign_field address_store 1 0 (StringV ''Bergen''))
                (TStruct staff_fields) (StructV [PtrV (Some 1), StringV ''bob'']) [0, 0] =
                  Some (StringV ''Bergen'')"
    by (simp_all add: staff_fields_def address_fields_def address_store_def struct_at_def
        assign_field_def)
  note val = Get_after_assignment [OF v1 v2 city v4]
  have b: "Get address_store (staff_record staff_value) ''City'' =
             Inr (Iface TString (StringV ''Oslo''), True) \<and>
           Get (assign_field address_store 1 0 (StringV ''Bergen'')) (staff_record staff_value) ''City'' =
             Inr (Iface TString (StringV ''Bergen''), True)"
    using val oslo bergen idx(3,4) by simp
  note val_name = Get_after_assignment [OF v1 v2 name v5]
  have c: "Get (assign_field address_store 1 0 (StringV ''Bergen'')) (staff_record staff_value) ''Name'' =
             Inr (Iface TString (StringV ''bob''), True)"
    using val_name idx(1,2) by fastforce
  show ?thesis
    using p1 name city p4 st a v1 v4 b c by (simp add: staff_pointer_def staff_value_def)
qed

lemma assign_caller_store:
  "assign_field caller_store 0 0 (IntV 2) =
     [0 \<mapsto> StructV [IntV 2, StringV ''alice'', StringV ''s3cr3t'']]"
  by (simp add: assign_field_def caller_store_def alice_def)

text \<open>
  C3 does not hold for an adapter built from a struct value: the \<^verbatim>\<open>interface{}\<close> that the
  factory receives holds a copy of the caller's struct, so after the caller assigns 2 to
  the field \<^verbatim>\<open>ID\<close> of its variable, \<^verbatim>\<open>Get\<close> still returns 1, the value of the
  construction.
\<close>

theorem Get_of_struct_value_reads_copy:
  "caller_store 0 = Some alice \<and>
   alice_value = Iface (TStruct person_fields) alice \<and>
   NewStructRecord alice_value [''db''] = Inr (alice_db, None) \<and>
   assign_field caller_store 0 0 (IntV 2) 0 =
     Some (StructV [IntV 2, StringV ''alice'', StringV ''s3cr3t'']) \<and>
   Get (assign_field caller_store 0 0 (IntV 2)) alice_db ''id'' = Inr (Iface TInt (IntV 1), True)"
proof -
  have "Get (assign_field caller_store 0 0 (IntV 2)) alice_db ''id'' =
          Inr (Iface TInt (IntV 1), True)"
    by (simp add: alice_db_def alice_value_def Get_eval visible_person)
       (simp add: person_fields_def alice_def)
  then show ?thesis
    using NewStructRecord_alice_value
    by (simp add: assign_caller_store) (simp add: caller_store_def alice_value_def)
qed

section \<open>Two fields under one key\<close>








end
